theory Spec2Isabelle
  imports Main
begin

section \<open>Data model\<close>

text \<open>
  The exceptions that the modelled code can raise: an out-of-range list index, iterating
  over \<open>None\<close>, and an integer division by zero.
\<close>

datatype py_error = IndexError | TypeError | ZeroDivisionError

text \<open>
  A coordinate is the two-element list \<open>[row, column]\<close> of the source; a grid is the
  list of rows of the game board, whose cells are Python integers.
\<close>

type_synonym coord = "nat \<times> nat"
type_synonym grid = "int list list"

text \<open>The instance attributes of class \<open>Sudoku\<close>; \<open>None\<close> is the class-level default.\<close>

record sudoku =
  board :: "grid option"
  sudoku_N :: "nat option"
  subgrid_row_count :: "int option"
  subgrid_column_count :: "int option"
  subgrid_coordinates :: "coord list list option"
  protected_coordinates :: "coord list"

definition init_sudoku :: sudoku where
  "init_sudoku = \<lparr>board = None, sudoku_N = None, subgrid_row_count = None,
     subgrid_column_count = None, subgrid_coordinates = None, protected_coordinates = []\<rparr>"

text \<open>The three values \<open>load_board_csv\<close> can return: \<open>True\<close>, \<open>False\<close>, and the
  \<open>None\<close> of its bare \<open>return\<close>.\<close>

datatype ret = RTrue | RFalse | RNone

section \<open>Board access\<close>

text \<open>\<open>board[r][c]\<close>, read and written, with the IndexError of an index past the end.\<close>

definition get_cell :: "grid \<Rightarrow> nat \<Rightarrow> nat \<Rightarrow> py_error + int" where
  "get_cell b r c =
     (if r < length b \<and> c < length (b ! r) then Inr (b ! r ! c) else Inl IndexError)"

definition set_cell :: "grid \<Rightarrow> nat \<Rightarrow> nat \<Rightarrow> int \<Rightarrow> py_error + grid" where
  "set_cell b r c v =
     (if r < length b \<and> c < length (b ! r) then Inr (b[r := (b ! r)[c := v]])
      else Inl IndexError)"

section \<open>Loading\<close>

subsection \<open>Text of a cell\<close>

text \<open>\<open>row.strip("\n")\<close>: newline characters are removed from both ends.\<close>

definition strip_chars :: "(char \<Rightarrow> bool) \<Rightarrow> string \<Rightarrow> string" where
  "strip_chars p s = rev (dropWhile p (rev (dropWhile p s)))"

definition strip_newline :: "string \<Rightarrow> string" where
  "strip_newline s = strip_chars (\<lambda>ch. ch = CHR 0x0A) s"

text \<open>\<open>str.split(",")\<close>: the fields between commas; the empty string has one empty field.\<close>

fun split_comma :: "string \<Rightarrow> string list" where
  "split_comma [] = [[]]"
| "split_comma (ch # cs) =
     (if ch = CHR '','' then [] # split_comma cs
      else (case split_comma cs of [] \<Rightarrow> [[ch]] | w # ws \<Rightarrow> (ch # w) # ws))"

text \<open>
  The builtin \<open>int(text)\<close> on ASCII text: surrounding white space is dropped, one sign is
  allowed, and the rest is decimal digits, where single underscores may stand between
  digits. \<open>None\<close> is the ValueError that the source catches. Digits outside ASCII and
  the limit that recent interpreters put on the number of digits are not modelled.
\<close>

definition is_space :: "char \<Rightarrow> bool" where
  "is_space ch = (ch \<in> set [CHR 0x20, CHR 0x09, CHR 0x0A, CHR 0x0B, CHR 0x0C, CHR 0x0D])"

definition is_digit :: "char \<Rightarrow> bool" where
  "is_digit ch = (48 \<le> (of_char ch :: nat) \<and> (of_char ch :: nat) \<le> 57)"

definition digit_val :: "char \<Rightarrow> int" where
  "digit_val ch = int (of_char ch) - 48"

fun digits_ok :: "string \<Rightarrow> bool" where
  "digits_ok [] = False"
| "digits_ok [ch] = is_digit ch"
| "digits_ok (ch # ch' # cs) =
     (is_digit ch \<and> (if ch' = CHR ''_'' then digits_ok cs else digits_ok (ch' # cs)))"

definition py_int :: "string \<Rightarrow> int option" where
  "py_int s =
     (case strip_chars is_space s of
        [] \<Rightarrow> None
      | ch # cs \<Rightarrow>
          (let sgn = (if ch = CHR ''-'' then - 1 else 1);
               ds = (if ch = CHR ''-'' \<or> ch = CHR ''+'' then cs else ch # cs)
           in if digits_ok ds
              then Some (sgn * foldl (\<lambda>acc d. 10 * acc + digit_val d) 0 (filter is_digit ds))
              else None))"

subsection \<open>The helpers of the loader\<close>

text \<open>
  \<open>__convert_grid_str_to_int\<close> walks the square grid row by row and cell by cell and
  replaces each text by its integer; the first cell that does not parse ends the walk
  with \<open>False\<close> (here \<open>None\<close>). It is only reached after \<open>load_board_csv\<close> has found
  the grid square, so its index ranges cover every cell of every row.
\<close>

fun convert_row :: "string list \<Rightarrow> int list option" where
  "convert_row [] = Some []"
| "convert_row (x # xs) =
     (case py_int x of
        None \<Rightarrow> None
      | Some num \<Rightarrow> (case convert_row xs of None \<Rightarrow> None | Some nums \<Rightarrow> Some (num # nums)))"

fun convert_grid_str_to_int :: "string list list \<Rightarrow> grid option" where
  "convert_grid_str_to_int [] = Some []"
| "convert_grid_str_to_int (row # rows) =
     (case convert_row row of
        None \<Rightarrow> None
      | Some nums \<Rightarrow>
          (case convert_grid_str_to_int rows of None \<Rightarrow> None | Some g \<Rightarrow> Some (nums # g)))"

text \<open>\<open>__set_protected_coordinates\<close>: the coordinates of the non-zero cells, row-major.\<close>

definition set_protected_coordinates :: "grid \<Rightarrow> coord list" where
  "set_protected_coordinates b =
     concat (map (\<lambda>row_index.
               map (\<lambda>col_index. (row_index, col_index))
                 (filter (\<lambda>col_index. b ! row_index ! col_index \<noteq> 0) [0..<length b]))
             [0..<length b])"

text \<open>
  \<open>__set_subgrid_coordinates\<close>: the coordinates relative to one subgrid, then one copy of
  them per subgrid, shifted. \<open>range\<close> of a negative count is empty.
\<close>

definition sub_coords :: "int \<Rightarrow> int \<Rightarrow> coord list" where
  "sub_coords row_count column_count =
     concat (map (\<lambda>i. map (\<lambda>j. (i, j)) [0..<nat column_count])
               [0..<nat row_count])"

definition set_subgrid_coordinates :: "int \<Rightarrow> int \<Rightarrow> coord list list" where
  "set_subgrid_coordinates row_count column_count =
     concat (map (\<lambda>i.
               map (\<lambda>j.
                 map (\<lambda>sub. (i * nat row_count + fst sub,
                              j * nat column_count + snd sub))
                   (sub_coords row_count column_count))
               [0..<nat row_count])
             [0..<nat column_count])"

subsection \<open>load\_board\_csv\<close>

text \<open>
  The file is given as the lines that iterating over it yields, or \<open>None\<close> when opening
  it raises FileNotFoundError (the only exception the source catches there; other failures
  of the file system are not modelled). \<open>csv_rows\<close> is the list comprehension that
  builds the grid of texts. The attributes are assigned only after every check has passed.
\<close>

definition csv_rows :: "string list \<Rightarrow> string list list" where
  "csv_rows csv_lines = map (\<lambda>row. split_comma (strip_newline row)) csv_lines"

definition load_board_csv ::
  "sudoku \<Rightarrow> string list option \<Rightarrow> int \<Rightarrow> int \<Rightarrow> ret \<times> sudoku" where
  "load_board_csv s csv_file row_count column_count =
     (case csv_file of
        None \<Rightarrow> (RFalse, s)
      | Some csv_lines \<Rightarrow>
          (let rows = csv_rows csv_lines in
           if \<exists>row \<in> set rows. length row \<noteq> length rows then (RFalse, s)
           else if row_count * column_count \<noteq> int (length rows) then (RNone, s)
           else (case convert_grid_str_to_int rows of
                   None \<Rightarrow> (RFalse, s)
                 | Some b \<Rightarrow>
                     (RTrue,
                      s\<lparr>protected_coordinates := set_protected_coordinates b,
                        board := Some b,
                        sudoku_N := Some (length b),
                        subgrid_row_count := Some row_count,
                        subgrid_column_count := Some column_count,
                        subgrid_coordinates :=
                          Some (set_subgrid_coordinates row_count column_count)\<rparr>))))"

section \<open>Solving\<close>

text \<open>\<open>__get_coord_from_index\<close>: floor division and remainder by the side length.\<close>

definition get_coord_from_index :: "nat \<Rightarrow> nat \<Rightarrow> py_error + coord" where
  "get_coord_from_index N index =
     (if N = 0 then Inl ZeroDivisionError else Inr (index div N, index mod N))"

text \<open>\<open>__get_subgrid_from_coord\<close>: the first subgrid that lists the coordinate, or
  \<open>None\<close> when the loops end without a hit.\<close>

definition get_subgrid_from_coord :: "coord list list \<Rightarrow> coord \<Rightarrow> coord list option" where
  "get_subgrid_from_coord subs coordinate = List.find (\<lambda>sub. coordinate \<in> set sub) subs"

text \<open>
  \<open>__validate_num_at_coord\<close>. The first loop compares the number with the i-th cell of the
  row and then with the i-th cell of the column, for each i in turn, and returns at the
  first hit; the cell at the coordinate itself is among those compared.
\<close>

fun check_row_col :: "grid \<Rightarrow> int \<Rightarrow> coord \<Rightarrow> nat list \<Rightarrow> py_error + bool" where
  "check_row_col b num coord [] = Inr True"
| "check_row_col b num coord (i # is) =
     (case get_cell b (fst coord) i of
        Inl e \<Rightarrow> Inl e
      | Inr v \<Rightarrow>
          if num = v then Inr False
          else (case get_cell b i (snd coord) of
                  Inl e \<Rightarrow> Inl e
                | Inr w \<Rightarrow> if num = w then Inr False else check_row_col b num coord is))"

fun subgrid_nums :: "grid \<Rightarrow> coord list \<Rightarrow> py_error + int list" where
  "subgrid_nums b [] = Inr []"
| "subgrid_nums b (c # cs) =
     (case get_cell b (fst c) (snd c) of
        Inl e \<Rightarrow> Inl e
      | Inr v \<Rightarrow> (case subgrid_nums b cs of Inl e \<Rightarrow> Inl e | Inr vs \<Rightarrow> Inr (v # vs)))"

definition validate_num_at_coord ::
  "nat \<Rightarrow> coord list list \<Rightarrow> grid \<Rightarrow> int \<Rightarrow> coord \<Rightarrow> py_error + bool" where
  "validate_num_at_coord N subs b num coord =
     (case check_row_col b num coord [0..<N] of
        Inl e \<Rightarrow> Inl e
      | Inr clear \<Rightarrow>
          if \<not> clear then Inr False
          else (case get_subgrid_from_coord subs coord of
                  None \<Rightarrow> Inl TypeError
                | Some subgrid_coords \<Rightarrow>
                    (case subgrid_nums b subgrid_coords of
                       Inl e \<Rightarrow> Inl e
                     | Inr nums \<Rightarrow> Inr (num \<notin> set nums))))"

text \<open>
  The index that \<open>process_board\<close> recurses on: one past the current one, and one more when
  the coordinate of that next index is protected.
\<close>

definition next_index :: "nat \<Rightarrow> coord list \<Rightarrow> nat \<Rightarrow> py_error + nat" where
  "next_index N prot current_index =
     (case get_coord_from_index N (current_index + 1) of
        Inl e \<Rightarrow> Inl e
      | Inr next_coord \<Rightarrow>
          Inr (if next_coord \<in> set prot then current_index + 1 + 1 else current_index + 1))"

text \<open>
  \<open>process_board\<close>, the nested recursive function of \<open>backtrack\<close>. The side length, the
  subgrids and the protected coordinates are read from the instance and never written; the
  board is mutated, so it is passed in and returned. \<open>try_candidates\<close> is the \<open>for d\<close> loop
  from candidate \<open>d\<close> on, together with the reset of the cell and the \<open>return False\<close> that
  follow the loop. The recursion limit of the interpreter is not modelled.
\<close>

function process_board ::
    "nat \<Rightarrow> coord list list \<Rightarrow> coord list \<Rightarrow> nat \<Rightarrow> grid \<Rightarrow> py_error + bool \<times> grid"
  and try_candidates ::
    "nat \<Rightarrow> coord list list \<Rightarrow> coord list \<Rightarrow> nat \<Rightarrow> coord \<Rightarrow> nat \<Rightarrow> grid
       \<Rightarrow> py_error + bool \<times> grid"
where
  "process_board N subs prot current_index b =
     (if N ^ 2 \<le> current_index then Inr (True, b)
      else (case get_coord_from_index N current_index of
              Inl e \<Rightarrow> Inl e
            | Inr coord \<Rightarrow> try_candidates N subs prot current_index coord 1 b))"
| "try_candidates N subs prot current_index coord d b =
     (if N < d then
        (case set_cell b (fst coord) (snd coord) 0 of
           Inl e \<Rightarrow> Inl e
         | Inr b0 \<Rightarrow> Inr (False, b0))
      else
        (case validate_num_at_coord N subs b (int d) coord of
           Inl e \<Rightarrow> Inl e
         | Inr valid \<Rightarrow>
             if \<not> valid then try_candidates N subs prot current_index coord (d + 1) b
             else
               (case set_cell b (fst coord) (snd coord) (int d) of
                  Inl e \<Rightarrow> Inl e
                | Inr b1 \<Rightarrow>
                    (case next_index N prot current_index of
                       Inl e \<Rightarrow> Inl e
                     | Inr nxt \<Rightarrow>
                         (case process_board N subs prot nxt b1 of
                            Inl e \<Rightarrow> Inl e
                          | Inr (found, b2) \<Rightarrow>
                              if found then Inr (True, b2)
                              else try_candidates N subs prot current_index coord (d + 1) b2)))))"
  by pat_completeness auto
termination
proof (relation "measure (\<lambda>x. case x of
          Inl (N, subs, prot, idx, b) \<Rightarrow> (N ^ 2 + 1 - idx) * (N + 3)
        | Inr (N, subs, prot, idx, coord, d, b) \<Rightarrow>
            (N ^ 2 - idx) * (N + 3) + (N + 1 - d) + 1)",
       goal_cases)
  case 1
  show ?case by simp
next
  case 2
  then show ?case by (simp add: Suc_diff_le not_le less_imp_le)
next
  case 3
  then show ?case by simp
next
  case (4 N subs prot idx coord d b valid b1 nxt)
  then have "idx < nxt"
    by (auto simp: next_index_def split: sum.splits if_splits)
  then have "N ^ 2 + 1 - nxt \<le> N ^ 2 - idx" by simp
  then have "(N ^ 2 + 1 - nxt) * (N + 3) \<le> (N ^ 2 - idx) * (N + 3)"
    by (rule mult_le_mono1)
  then have "(N ^ 2 + 1 - nxt) * (N + 3) < (N ^ 2 - idx) * (N + 3) + (N + 1 - d) + 1"
    by linarith
  then show ?case by simp
next
  case 5
  then show ?case by simp
qed

text \<open>
  \<open>backtrack\<close>: the three guards, then the search from index 0. The board of the instance
  is the one the search has mutated, whatever the result.
\<close>

definition backtrack :: "sudoku \<Rightarrow> py_error + bool \<times> sudoku" where
  "backtrack s =
     (case board s of
        None \<Rightarrow> Inr (False, s)
      | Some b \<Rightarrow>
          (case sudoku_N s of
             None \<Rightarrow> Inr (False, s)
           | Some N \<Rightarrow>
               (case subgrid_coordinates s of
                  None \<Rightarrow> Inr (False, s)
                | Some subs \<Rightarrow>
                    (case process_board N subs (protected_coordinates s) 0 b of
                       Inl e \<Rightarrow> Inl e
                     | Inr (found, b') \<Rightarrow> Inr (found, s\<lparr>board := Some b'\<rparr>)))))"

text \<open>
  The same search, counting the nesting of the recursive calls: the first component of the
  result is the greatest number of \<open>process_board\<close> calls that were open at one time below
  the call in question (0 when it made none).
\<close>

function process_board_depth ::
    "nat \<Rightarrow> coord list list \<Rightarrow> coord list \<Rightarrow> nat \<Rightarrow> grid
       \<Rightarrow> nat \<times> (py_error + bool \<times> grid)"
  and try_candidates_depth ::
    "nat \<Rightarrow> coord list list \<Rightarrow> coord list \<Rightarrow> nat \<Rightarrow> coord \<Rightarrow> nat \<Rightarrow> grid
       \<Rightarrow> nat \<times> (py_error + bool \<times> grid)"
where
  "process_board_depth N subs prot current_index b =
     (if N ^ 2 \<le> current_index then (0, Inr (True, b))
      else (case get_coord_from_index N current_index of
              Inl e \<Rightarrow> (0, Inl e)
            | Inr coord \<Rightarrow> try_candidates_depth N subs prot current_index coord 1 b))"
| "try_candidates_depth N subs prot current_index coord d b =
     (if N < d then
        (case set_cell b (fst coord) (snd coord) 0 of
           Inl e \<Rightarrow> (0, Inl e)
         | Inr b0 \<Rightarrow> (0, Inr (False, b0)))
      else
        (case validate_num_at_coord N subs b (int d) coord of
           Inl e \<Rightarrow> (0, Inl e)
         | Inr valid \<Rightarrow>
             if \<not> valid then try_candidates_depth N subs prot current_index coord (d + 1) b
             else
               (case set_cell b (fst coord) (snd coord) (int d) of
                  Inl e \<Rightarrow> (0, Inl e)
                | Inr b1 \<Rightarrow>
                    (case next_index N prot current_index of
                       Inl e \<Rightarrow> (0, Inl e)
                     | Inr nxt \<Rightarrow>
                         (case process_board_depth N subs prot nxt b1 of
                            (k, Inl e) \<Rightarrow> (Suc k, Inl e)
                          | (k, Inr (found, b2)) \<Rightarrow>
                              if found then (Suc k, Inr (True, b2))
                              else
                                (case try_candidates_depth N subs prot current_index coord
                                        (d + 1) b2 of
                                   (k', res) \<Rightarrow> (max (Suc k) k', res)))))))"
  by pat_completeness auto
termination
proof (relation "measure (\<lambda>x. case x of
          Inl (N, subs, prot, idx, b) \<Rightarrow> (N ^ 2 + 1 - idx) * (N + 3)
        | Inr (N, subs, prot, idx, coord, d, b) \<Rightarrow>
            (N ^ 2 - idx) * (N + 3) + (N + 1 - d) + 1)",
       goal_cases)
  case 1
  show ?case by simp
next
  case 2
  then show ?case by (simp add: Suc_diff_le not_le less_imp_le)
next
  case 3
  then show ?case by simp
next
  case (4 N subs prot idx coord d b valid b1 nxt)
  then have "idx < nxt"
    by (auto simp: next_index_def split: sum.splits if_splits)
  then have "N ^ 2 + 1 - nxt \<le> N ^ 2 - idx" by simp
  then have "(N ^ 2 + 1 - nxt) * (N + 3) \<le> (N ^ 2 - idx) * (N + 3)"
    by (rule mult_le_mono1)
  then have "(N ^ 2 + 1 - nxt) * (N + 3) < (N ^ 2 - idx) * (N + 3) + (N + 1 - d) + 1"
    by linarith
  then show ?case by simp
next
  case 5
  then show ?case by simp
qed

definition backtrack_depth :: "sudoku \<Rightarrow> nat" where
  "backtrack_depth s =
     (case board s of
        None \<Rightarrow> 0
      | Some b \<Rightarrow>
          (case sudoku_N s of
             None \<Rightarrow> 0
           | Some N \<Rightarrow>
               (case subgrid_coordinates s of
                  None \<Rightarrow> 0
                | Some subs \<Rightarrow>
                    fst (process_board_depth N subs (protected_coordinates s) 0 b))))"

section \<open>Notions used in the statements\<close>

text \<open>A grid of side N; the cell at a coordinate; a grid with one cell replaced.\<close>

definition wf_grid :: "nat \<Rightarrow> grid \<Rightarrow> bool" where
  "wf_grid N b \<longleftrightarrow> length b = N \<and> (\<forall>row\<in>set b. length row = N)"

definition cell_at :: "grid \<Rightarrow> coord \<Rightarrow> int" where
  "cell_at b co = b ! fst co ! snd co"

definition put :: "grid \<Rightarrow> coord \<Rightarrow> int \<Rightarrow> grid" where
  "put b co v = b[fst co := (b ! fst co)[snd co := v]]"

definition coord_of :: "nat \<Rightarrow> nat \<Rightarrow> coord" where
  "coord_of N i = (i div N, i mod N)"

text \<open>
  The subgrid map partitions the grid of side N: there are N subgrids, no two of them the
  same list, each lists N coordinates of the grid without repetition, and every
  coordinate of the grid is in exactly one of them.
\<close>

definition partitions_grid :: "nat \<Rightarrow> coord list list \<Rightarrow> bool" where
  "partitions_grid N subs \<longleftrightarrow>
     length subs = N \<and> distinct subs \<and>
     (\<forall>sub\<in>set subs. length sub = N \<and> distinct sub \<and>
        (\<forall>co\<in>set sub. fst co < N \<and> snd co < N)) \<and>
     (\<forall>x\<in>{0..<N}. \<forall>y\<in>{0..<N}. \<exists>!sub. sub \<in> set subs \<and> (x, y) \<in> set sub)"

text \<open>
  The cells that \<open>__validate_num_at_coord\<close> compares a number with: the cells of the
  grid in the row, in the column or in a subgrid of the coordinate (itself included).
\<close>

definition peers :: "nat \<Rightarrow> coord list list \<Rightarrow> coord \<Rightarrow> coord \<Rightarrow> bool" where
  "peers N subs co co' \<longleftrightarrow>
     fst co' < N \<and> snd co' < N \<and>
     (fst co' = fst co \<or> snd co' = snd co \<or> (\<exists>sub\<in>set subs. co \<in> set sub \<and> co' \<in> set sub))"

text \<open>
  The indices that the search started at an index goes through: each is followed by the
  index that \<open>process_board\<close> recurses on, up to the end of the board.
\<close>

function search_indices :: "nat \<Rightarrow> coord list \<Rightarrow> nat \<Rightarrow> nat list" where
  "search_indices N prot idx =
     (if N ^ 2 \<le> idx then []
      else (case next_index N prot idx of
              Inl e \<Rightarrow> [idx]
            | Inr nxt \<Rightarrow> idx # search_indices N prot nxt))"
  by pat_completeness auto
termination
proof (relation "measure (\<lambda>(N, prot, idx). N ^ 2 - idx)", goal_cases)
  case 1
  show ?case by simp
next
  case (2 N prot idx nxt)
  then have "idx < nxt"
    by (auto simp: next_index_def split: sum.splits if_splits)
  with 2 show ?case by simp
qed

text \<open>
  A list holds each value of 1..N exactly once; a board is solved when every row, every
  column and every subgrid does.
\<close>

definition each_once :: "nat \<Rightarrow> int list \<Rightarrow> bool" where
  "each_once N vals \<longleftrightarrow> (\<forall>v\<in>set [1..int N]. count_list vals v = 1)"

definition solved :: "nat \<Rightarrow> coord list list \<Rightarrow> grid \<Rightarrow> bool" where
  "solved N subs b \<longleftrightarrow>
     (\<forall>x\<in>set [0..<N]. each_once N (b ! x)) \<and>
     (\<forall>y\<in>set [0..<N]. each_once N (map (\<lambda>x. b ! x ! y) [0..<N])) \<and>
     (\<forall>sub\<in>set subs. each_once N (map (cell_at b) sub))"

text \<open>
  The givens of a board are proper: each non-zero cell is in 1..N, and no two non-zero
  cells that share a row, a column or a subgrid are equal.
\<close>

definition givens_proper :: "nat \<Rightarrow> coord list list \<Rightarrow> grid \<Rightarrow> bool" where
  "givens_proper N subs b \<longleftrightarrow>
     (\<forall>x\<in>set [0..<N]. \<forall>y\<in>set [0..<N].
        cell_at b (x, y) \<noteq> 0 \<longrightarrow>
          1 \<le> cell_at b (x, y) \<and> cell_at b (x, y) \<le> int N \<and>
          (\<forall>x'\<in>set [0..<N]. \<forall>y'\<in>set [0..<N].
             (x', y') \<noteq> (x, y) \<and> peers N subs (x, y) (x', y') \<and> cell_at b (x', y') \<noteq> 0
               \<longrightarrow> cell_at b (x', y') \<noteq> cell_at b (x, y)))"

text \<open>
  The givens are proper but for one pair of cells \<open>p\<close> and \<open>q\<close>, which is not compared.
\<close>

definition givens_proper_but :: "nat \<Rightarrow> coord list list \<Rightarrow> grid \<Rightarrow> coord \<Rightarrow> coord \<Rightarrow> bool" where
  "givens_proper_but N subs b p q \<longleftrightarrow>
     (\<forall>x\<in>set [0..<N]. \<forall>y\<in>set [0..<N].
        cell_at b (x, y) \<noteq> 0 \<longrightarrow>
          1 \<le> cell_at b (x, y) \<and> cell_at b (x, y) \<le> int N \<and>
          (\<forall>x'\<in>set [0..<N]. \<forall>y'\<in>set [0..<N].
             (x', y') \<noteq> (x, y) \<and>
             \<not> ((x, y) = p \<and> (x', y') = q) \<and> \<not> ((x, y) = q \<and> (x', y') = p) \<and>
             peers N subs (x, y) (x', y') \<and> cell_at b (x', y') \<noteq> 0
               \<longrightarrow> cell_at b (x', y') \<noteq> cell_at b (x, y)))"


text \<open>
  A cell is settled: it holds a value of 1..N that no other cell of its row, of its column
  or of its subgrid holds.
\<close>

definition settled :: "nat \<Rightarrow> coord list list \<Rightarrow> grid \<Rightarrow> coord \<Rightarrow> bool" where
  "settled N subs b co \<longleftrightarrow>
     1 \<le> cell_at b co \<and> cell_at b co \<le> int N \<and>
     (\<forall>co'. peers N subs co co' \<longrightarrow> co' \<noteq> co \<longrightarrow> cell_at b co' \<noteq> cell_at b co)"


text \<open>
  The subgrid whose first cell is \<open>(i * r, j * c)\<close>, as \<open>__set_subgrid_coordinates\<close>
  lists it, and the index that \<open>process_board\<close> recurses on when the side length is not 0.
\<close>

definition tile :: "nat \<Rightarrow> nat \<Rightarrow> coord \<Rightarrow> coord list" where
  "tile r c p = map (\<lambda>sub. (fst p * r + fst sub, snd p * c + snd sub)) (List.product [0..<r] [0..<c])"


definition next_of :: "nat \<Rightarrow> coord list \<Rightarrow> nat \<Rightarrow> nat" where
  "next_of N prot idx = (if coord_of N (idx + 1) \<in> set prot then idx + 2 else idx + 1)"


declare process_board.simps [simp del] try_candidates.simps [simp del]
declare process_board_depth.simps [simp del] try_candidates_depth.simps [simp del]
declare search_indices.simps [simp del]


section \<open>The loader\<close>

subsection \<open>Conversion of the cell texts\<close>

lemma convert_row_None: "convert_row xs = None \<longleftrightarrow> (\<exists>x\<in>set xs. py_int x = None)"
  by (induction xs) (auto split: option.splits)

lemma convert_row_Some:
  "convert_row xs = Some ns \<longleftrightarrow> (\<forall>x\<in>set xs. py_int x \<noteq> None) \<and> ns = map (the \<circ> py_int) xs"
proof (induction xs arbitrary: ns)
  case Nil
  show ?case by auto
next
  case (Cons x xs)
  show ?case
  proof (cases "py_int x")
    case None
    then show ?thesis by auto
  next
    case (Some n)
    show ?thesis
    proof (cases "convert_row xs")
      case None
      then have "\<exists>y\<in>set xs. py_int y = None" by (simp add: convert_row_None)
      with None Some show ?thesis by auto
    next
      case (Some ms)
      with Cons.IH [of ms] \<open>py_int x = Some n\<close> show ?thesis by auto
    qed
  qed
qed

lemma convert_grid_None:
  "convert_grid_str_to_int rows = None \<longleftrightarrow> (\<exists>row\<in>set rows. \<exists>x\<in>set row. py_int x = None)"
  by (induction rows) (auto simp: convert_row_None convert_row_Some split: option.splits)

lemma convert_grid_Some:
  "convert_grid_str_to_int rows = Some g \<longleftrightarrow>
     (\<forall>row\<in>set rows. \<forall>x\<in>set row. py_int x \<noteq> None) \<and> g = map (map (the \<circ> py_int)) rows"
proof (induction rows arbitrary: g)
  case Nil
  show ?case by auto
next
  case (Cons row rows)
  show ?case
  proof (cases "convert_row row")
    case None
    then have "\<exists>y\<in>set row. py_int y = None" by (simp add: convert_row_None)
    with None show ?thesis by auto
  next
    case (Some ns)
    then have row: "(\<forall>x\<in>set row. py_int x \<noteq> None) \<and> ns = map (the \<circ> py_int) row"
      by (simp add: convert_row_Some)
    show ?thesis
    proof (cases "convert_grid_str_to_int rows")
      case None
      then have "\<exists>r\<in>set rows. \<exists>x\<in>set r. py_int x = None" by (simp add: convert_grid_None)
      with None Some show ?thesis by auto
    next
      case (Some h)
      with Cons.IH [of h] row \<open>convert_row row = Some ns\<close> show ?thesis by auto
    qed
  qed
qed

lemma length_csv_rows: "length (csv_rows csv_lines) = length csv_lines"
  by (simp add: csv_rows_def)


subsection \<open>Order and results of the checks\<close>

text \<open>
  Claim C8, as stated, fails: a missing file, a grid that is not square and a cell that is
  not a number all make \<open>load_board_csv\<close> return the same \<open>False\<close> and leave the same
  instance, so the caller cannot tell these three reasons apart from the result.
\<close>

theorem load_failures_share_a_result:
  "load_board_csv init_sudoku None 2 2 = (RFalse, init_sudoku) \<and>
   load_board_csv init_sudoku (Some [''1,2\<newline>'', ''3\<newline>'']) 1 2 = (RFalse, init_sudoku) \<and>
   load_board_csv init_sudoku (Some [''1,x\<newline>'', ''3,4\<newline>'']) 1 2 = (RFalse, init_sudoku)"
  by code_simp


text \<open>
  Claim C8, amended: the checks run in the order file found, grid square, subgrid counts,
  cells numeric. A missing file fails whatever the counts are; a grid that is not square
  fails whatever the counts and the cells are; wrong counts fail whatever the cells are; a
  cell that does not parse fails last. Every failure returns a result other than \<open>True\<close>
  and leaves the instance as it was, and a load that passes all four checks returns
  \<open>True\<close>.
\<close>

theorem load_checks_in_order:
  "load_board_csv s None r c = (RFalse, s) \<and>
   ((\<exists>row\<in>set (csv_rows ls). length row \<noteq> length ls)
      \<longrightarrow> load_board_csv s (Some ls) r c = (RFalse, s)) \<and>
   ((\<forall>row\<in>set (csv_rows ls). length row = length ls) \<and> r * c \<noteq> int (length ls)
      \<longrightarrow> load_board_csv s (Some ls) r c = (RNone, s)) \<and>
   ((\<forall>row\<in>set (csv_rows ls). length row = length ls) \<and> r * c = int (length ls) \<and>
    (\<exists>row\<in>set (csv_rows ls). \<exists>cell\<in>set row. py_int cell = None)
      \<longrightarrow> load_board_csv s (Some ls) r c = (RFalse, s)) \<and>
   ((\<forall>row\<in>set (csv_rows ls). length row = length ls) \<and> r * c = int (length ls) \<and>
    (\<forall>row\<in>set (csv_rows ls). \<forall>cell\<in>set row. py_int cell \<noteq> None)
      \<longrightarrow> fst (load_board_csv s (Some ls) r c) = RTrue) \<and>
   (fst (load_board_csv s csv r c) \<noteq> RTrue \<longrightarrow> snd (load_board_csv s csv r c) = s)"
proof -
  have nf: "load_board_csv s None r c = (RFalse, s)"
    by (simp add: load_board_csv_def)
  have ns: "(\<exists>row\<in>set (csv_rows ls). length row \<noteq> length ls)
      \<longrightarrow> load_board_csv s (Some ls) r c = (RFalse, s)"
    by (auto simp: load_board_csv_def Let_def length_csv_rows)
  have cfg: "(\<forall>row\<in>set (csv_rows ls). length row = length ls) \<and> r * c \<noteq> int (length ls)
      \<longrightarrow> load_board_csv s (Some ls) r c = (RNone, s)"
    by (auto simp: load_board_csv_def Let_def length_csv_rows)
  have nn: "(\<forall>row\<in>set (csv_rows ls). length row = length ls) \<and> r * c = int (length ls) \<and>
    (\<exists>row\<in>set (csv_rows ls). \<exists>cell\<in>set row. py_int cell = None)
      \<longrightarrow> load_board_csv s (Some ls) r c = (RFalse, s)"
  proof (intro impI, elim conjE)
    assume sq: "\<forall>row\<in>set (csv_rows ls). length row = length ls"
      and rc: "r * c = int (length ls)"
      and bad: "\<exists>row\<in>set (csv_rows ls). \<exists>cell\<in>set row. py_int cell = None"
    from bad have "convert_grid_str_to_int (csv_rows ls) = None"
      by (simp add: convert_grid_None)
    with sq rc show "load_board_csv s (Some ls) r c = (RFalse, s)"
      by (simp add: load_board_csv_def Let_def length_csv_rows)
  qed
  have ok: "(\<forall>row\<in>set (csv_rows ls). length row = length ls) \<and> r * c = int (length ls) \<and>
    (\<forall>row\<in>set (csv_rows ls). \<forall>cell\<in>set row. py_int cell \<noteq> None)
      \<longrightarrow> fst (load_board_csv s (Some ls) r c) = RTrue"
  proof (intro impI, elim conjE)
    assume sq: "\<forall>row\<in>set (csv_rows ls). length row = length ls"
      and rc: "r * c = int (length ls)"
      and good: "\<forall>row\<in>set (csv_rows ls). \<forall>cell\<in>set row. py_int cell \<noteq> None"
    from good obtain g where "convert_grid_str_to_int (csv_rows ls) = Some g"
      using convert_grid_None [of "csv_rows ls"] by fastforce
    with sq rc show "fst (load_board_csv s (Some ls) r c) = RTrue"
      by (simp add: load_board_csv_def Let_def length_csv_rows)
  qed
  have unch: "fst (load_board_csv s csv r c) \<noteq> RTrue \<longrightarrow> snd (load_board_csv s csv r c) = s"
    by (auto simp: load_board_csv_def Let_def split: option.splits)
  from nf ns cfg nn ok unch show ?thesis by blast
qed

theorem load_checks_in_order_witness:
  "load_board_csv init_sudoku (Some [''1,2\<newline>'', ''3,4'', ''5,6'']) 1 3 = (RFalse, init_sudoku) \<and>
   load_board_csv init_sudoku (Some [''1,x\<newline>'', ''3,4'']) 2 2 = (RNone, init_sudoku) \<and>
   load_board_csv init_sudoku (Some [''1,x\<newline>'', ''3,4'']) 1 2 = (RFalse, init_sudoku) \<and>
   fst (load_board_csv init_sudoku (Some [''1,0\<newline>'', ''3,4'']) 1 2) = RTrue"
proof -
  have a: "\<exists>row\<in>set (csv_rows [''1,2\<newline>'', ''3,4'', ''5,6'']). length row \<noteq> length [''1,2\<newline>'', ''3,4'', ''5,6'']"
    by code_simp
  have sq: "\<forall>row\<in>set (csv_rows [''1,x\<newline>'', ''3,4'']). length row = length [''1,x\<newline>'', ''3,4'']"
    by code_simp
  have bad: "\<exists>row\<in>set (csv_rows [''1,x\<newline>'', ''3,4'']). \<exists>cell\<in>set row. py_int cell = None"
    by code_simp
  have sq2: "\<forall>row\<in>set (csv_rows [''1,0\<newline>'', ''3,4'']). length row = length [''1,0\<newline>'', ''3,4'']"
    by code_simp
  have good: "\<forall>row\<in>set (csv_rows [''1,0\<newline>'', ''3,4'']). \<forall>cell\<in>set row. py_int cell \<noteq> None"
    by code_simp
  show ?thesis
    using a sq bad sq2 good
      load_checks_in_order [where s = init_sudoku and ls = "[''1,2\<newline>'', ''3,4'', ''5,6'']" and r = 1 and c = 3]
      load_checks_in_order [where s = init_sudoku and ls = "[''1,x\<newline>'', ''3,4'']" and r = 2 and c = 2]
      load_checks_in_order [where s = init_sudoku and ls = "[''1,x\<newline>'', ''3,4'']" and r = 1 and c = 2]
      load_checks_in_order [where s = init_sudoku and ls = "[''1,0\<newline>'', ''3,4'']" and r = 1 and c = 2]
    by simp
qed

text \<open>
  Claim C6, as stated, fails: the loader makes no range check and \<open>int\<close> accepts a sign.
  A 2 by 2 file with the cells \<open>7\<close> and \<open>-3\<close> loads, and the board holds 7, above
  the side length, and the negative number -3.
\<close>

theorem load_accepts_cells_out_of_range:
  "fst (load_board_csv init_sudoku (Some [''0,7\<newline>'', ''0,-3\<newline>'']) 1 2) = RTrue \<and>
   board (snd (load_board_csv init_sudoku (Some [''0,7\<newline>'', ''0,-3\<newline>'']) 1 2))
     = Some [[0, 7], [0, - 3]] \<and>
   sudoku_N (snd (load_board_csv init_sudoku (Some [''0,7\<newline>'', ''0,-3\<newline>'']) 1 2))
     = Some 2"
  by code_simp

text \<open>
  Claim C6, amended: after a successful load every cell of the board is the integer that
  \<open>int\<close> reads from the text of that cell, whatever its sign or size, and every cell
  text was readable; a cell text that \<open>int\<close> rejects makes the load fail.
\<close>

theorem load_cells_are_parsed_integers:
  "(load_board_csv s (Some ls) r c = (RTrue, s') \<longrightarrow>
      board s' = Some (map (map (the \<circ> py_int)) (csv_rows ls)) \<and>
      (\<forall>row\<in>set (csv_rows ls). \<forall>cell\<in>set row. py_int cell \<noteq> None)) \<and>
   ((\<exists>row\<in>set (csv_rows ls). \<exists>cell\<in>set row. py_int cell = None) \<longrightarrow>
      fst (load_board_csv s (Some ls) r c) \<noteq> RTrue)"
proof (intro conjI impI)
  assume ok: "load_board_csv s (Some ls) r c = (RTrue, s')"
  then obtain b where conv: "convert_grid_str_to_int (csv_rows ls) = Some b"
    and s': "board s' = Some b"
    by (auto simp: load_board_csv_def Let_def split: if_splits option.splits)
  from conv s' show "board s' = Some (map (map (the \<circ> py_int)) (csv_rows ls))"
    by (simp add: convert_grid_Some)
  from conv show "\<forall>row\<in>set (csv_rows ls). \<forall>cell\<in>set row. py_int cell \<noteq> None"
    by (simp add: convert_grid_Some)
next
  assume "\<exists>row\<in>set (csv_rows ls). \<exists>cell\<in>set row. py_int cell = None"
  then have "convert_grid_str_to_int (csv_rows ls) = None"
    by (simp add: convert_grid_None)
  then show "fst (load_board_csv s (Some ls) r c) \<noteq> RTrue"
    by (simp add: load_board_csv_def Let_def)
qed

theorem load_cells_are_parsed_integers_witness:
  "board (snd (load_board_csv init_sudoku (Some [''3,0\<newline>'', '' 0 ,+1_0'']) 2 1))
     = Some (map (map (the \<circ> py_int)) (csv_rows [''3,0\<newline>'', '' 0 ,+1_0''])) \<and>
   map (map (the \<circ> py_int)) (csv_rows [''3,0\<newline>'', '' 0 ,+1_0'']) = [[3, 0], [0, 10]] \<and>
   fst (load_board_csv init_sudoku (Some [''3,0\<newline>'', ''0,1.5'']) 2 1) \<noteq> RTrue"
proof -
  have ok: "load_board_csv init_sudoku (Some [''3,0\<newline>'', '' 0 ,+1_0'']) 2 1
      = (RTrue, snd (load_board_csv init_sudoku (Some [''3,0\<newline>'', '' 0 ,+1_0'']) 2 1))"
    by code_simp
  have val: "map (map (the \<circ> py_int)) (csv_rows [''3,0\<newline>'', '' 0 ,+1_0'']) = [[3, 0], [0, 10]]"
    by code_simp
  have bad: "\<exists>row\<in>set (csv_rows [''3,0\<newline>'', ''0,1.5'']). \<exists>cell\<in>set row. py_int cell = None"
    by code_simp
  show ?thesis
    using ok val bad
      load_cells_are_parsed_integers [where s = init_sudoku
        and ls = "[''3,0\<newline>'', '' 0 ,+1_0'']" and r = 2 and c = 1
        and s' = "snd (load_board_csv init_sudoku (Some [''3,0\<newline>'', '' 0 ,+1_0'']) 2 1)"]
      load_cells_are_parsed_integers [where s = init_sudoku
        and ls = "[''3,0\<newline>'', ''0,1.5'']" and r = 2 and c = 1]
    by simp
qed

subsection \<open>What a successful load leaves in the instance\<close>

lemma load_success:
  assumes "load_board_csv s0 csv r c = (RTrue, s)"
  shows "\<exists>b N. wf_grid N b \<and> r * c = int N \<and> board s = Some b \<and> sudoku_N s = Some N \<and>
           subgrid_row_count s = Some r \<and> subgrid_column_count s = Some c \<and>
           subgrid_coordinates s = Some (set_subgrid_coordinates r c) \<and>
           protected_coordinates s = set_protected_coordinates b"
proof -
  from assms obtain ls where csv: "csv = Some ls"
    by (cases csv) (simp_all add: load_board_csv_def)
  let ?rows = "csv_rows ls"
  from assms csv have sq: "\<forall>row\<in>set ?rows. length row = length ?rows"
    and rc: "r * c = int (length ?rows)"
    by (auto simp: load_board_csv_def Let_def split: if_splits)
  from assms csv sq rc obtain b where conv: "convert_grid_str_to_int ?rows = Some b"
    and s: "s = s0\<lparr>protected_coordinates := set_protected_coordinates b,
                        board := Some b,
                        sudoku_N := Some (length b),
                        subgrid_row_count := Some r,
                        subgrid_column_count := Some c,
                        subgrid_coordinates := Some (set_subgrid_coordinates r c)\<rparr>"
    by (auto simp: load_board_csv_def Let_def split: if_splits option.splits)
  from conv have b: "b = map (map (the \<circ> py_int)) ?rows"
    by (simp add: convert_grid_Some)
  with sq have wf: "wf_grid (length ?rows) b"
    by (auto simp: wf_grid_def)
  from b have "length b = length ?rows" by simp
  with wf rc s show ?thesis by auto
qed

lemma set_protected_iff:
  assumes "wf_grid N b"
  shows "co \<in> set (set_protected_coordinates b)
           \<longleftrightarrow> fst co < N \<and> snd co < N \<and> cell_at b co \<noteq> 0"
  using assms by (cases co) (auto simp: set_protected_coordinates_def wf_grid_def cell_at_def)


section \<open>The subgrid map\<close>

lemma concat_map_product:
  "concat (map (\<lambda>i. map (\<lambda>j. f i j) ys) xs) = map (\<lambda>p. f (fst p) (snd p)) (List.product xs ys)"
  by (induction xs) (simp_all add: comp_def)

lemma sub_coords_product:
  "sub_coords (int r) (int c) = List.product [0..<r] [0..<c]"
  using concat_map_product [of Pair "[0..<c]" "[0..<r]"]
  by (simp add: sub_coords_def)

lemma subgrids_product:
  "set_subgrid_coordinates (int r) (int c) = map (tile r c) (List.product [0..<c] [0..<r])"
  unfolding set_subgrid_coordinates_def sub_coords_product nat_int tile_def
  by (rule concat_map_product)

lemma in_tile:
  assumes "0 < r" "0 < c"
  shows "(x, y) \<in> set (tile r c p) \<longleftrightarrow> x div r = fst p \<and> y div c = snd p"
proof
  assume "(x, y) \<in> set (tile r c p)"
  then obtain a b where "a < r" "b < c" "x = fst p * r + a" "y = snd p * c + b"
    by (auto simp: tile_def)
  then show "x div r = fst p \<and> y div c = snd p" by simp
next
  assume h: "x div r = fst p \<and> y div c = snd p"
  have "x mod r < r" "y mod c < c" using assms by simp_all
  moreover have "x = fst p * r + x mod r" "y = snd p * c + y mod c"
    using h by (metis div_mult_mod_eq)+
  ultimately have "(x, y) \<in> (\<lambda>sub. (fst p * r + fst sub, snd p * c + snd sub)) ` ({0..<r} \<times> {0..<c})"
    by (intro image_eqI [where x = "(x mod r, y mod c)"]) simp_all
  then show "(x, y) \<in> set (tile r c p)"
    by (simp add: tile_def)
qed

lemma length_tile: "length (tile r c p) = r * c"
  by (simp add: tile_def)

lemma distinct_tile: "distinct (tile r c p)"
  unfolding tile_def
  by (rule iffD2 [OF distinct_map]) (auto simp: distinct_product inj_on_def)

lemma tile_in_grid:
  assumes "co \<in> set (tile r c p)" "fst p < c" "snd p < r"
  shows "fst co < r * c \<and> snd co < r * c"
proof -
  from assms(1) obtain a b where ab: "a < r" "b < c" "co = (fst p * r + a, snd p * c + b)"
    by (auto simp: tile_def)
  have "fst p * r + a < Suc (fst p) * r" using ab by simp
  also have "\<dots> \<le> c * r" using assms(2) by (intro mult_le_mono1) simp
  finally have 1: "fst p * r + a < r * c" by (simp add: mult.commute)
  have "snd p * c + b < Suc (snd p) * c" using ab by simp
  also have "\<dots> \<le> r * c" using assms(3) by (intro mult_le_mono1) simp
  finally have 2: "snd p * c + b < r * c" .
  from 1 2 ab show ?thesis by simp
qed

lemma tile_inj:
  assumes "0 < r" "0 < c" "tile r c p = tile r c q"
  shows "p = q"
proof -
  have "(fst p * r, snd p * c) \<in> set (tile r c p)"
    using assms(1,2) by (simp add: in_tile)
  then have "(fst p * r, snd p * c) \<in> set (tile r c q)" using assms(3) by simp
  then have "fst p = fst q \<and> snd p = snd q" using assms(1,2) by (simp add: in_tile)
  then show ?thesis by (simp add: prod_eq_iff)
qed

lemma set_subgrid_coordinates_partitions:
  assumes "0 < r" "0 < c"
  shows "partitions_grid (r * c) (set_subgrid_coordinates (int r) (int c))"
proof -
  let ?subs = "set_subgrid_coordinates (int r) (int c)"
  have subs: "?subs = map (tile r c) (List.product [0..<c] [0..<r])"
    by (rule subgrids_product)
  have len: "length ?subs = r * c" by (simp add: subs mult.commute)
  have dist: "distinct ?subs"
    unfolding subs
    by (rule iffD2 [OF distinct_map])
       (auto simp: distinct_product inj_on_def dest: tile_inj [OF assms])
  have mem: "sub \<in> set ?subs \<longleftrightarrow> (\<exists>i j. i < c \<and> j < r \<and> sub = tile r c (i, j))" for sub
    by (auto simp: subs) blast
  have each: "\<forall>sub\<in>set ?subs. length sub = r * c \<and> distinct sub \<and>
        (\<forall>co\<in>set sub. fst co < r * c \<and> snd co < r * c)"
    using tile_in_grid [of _ r c] by (auto simp: mem length_tile distinct_tile)
  have one: "\<exists>!sub. sub \<in> set ?subs \<and> (x, y) \<in> set sub"
    if "x \<in> {0..<r * c}" "y \<in> {0..<r * c}" for x y
  proof (rule ex1I [of _ "tile r c (x div r, y div c)"])
    have "x div r < c" "y div c < r"
      using that assms by (simp_all add: div_less_iff_less_mult mult.commute)
    then show "tile r c (x div r, y div c) \<in> set ?subs \<and> (x, y) \<in> set (tile r c (x div r, y div c))"
      using assms by (auto simp: mem in_tile)
  next
    fix sub
    assume "sub \<in> set ?subs \<and> (x, y) \<in> set sub"
    then obtain p where "sub = tile r c p" "(x, y) \<in> set (tile r c p)"
      unfolding mem by blast
    then show "sub = tile r c (x div r, y div c)"
      using assms by (simp add: in_tile prod_eq_iff)
  qed
  from len dist each one show ?thesis
    unfolding partitions_grid_def by blast
qed

lemma loaded_partitions:
  assumes "0 < r" "0 < c" "r * c = int N"
  shows "partitions_grid N (set_subgrid_coordinates r c)"
proof -
  have pos: "0 < nat r" "0 < nat c" using assms by simp_all
  have "int (nat r * nat c) = int N" using assms by simp
  then have N: "N = nat r * nat c" by linarith
  from set_subgrid_coordinates_partitions [OF pos] assms(1,2) N show ?thesis by simp
qed


text \<open>
  Claim C7: after a successful load with positive subgrid counts, the product of the two
  counts is the side length N, and the subgrid map partitions the grid: N subgrids, each
  with N cells, and every coordinate of the grid in exactly one of them.
\<close>

theorem loaded_subgrids_partition_board:
  assumes "load_board_csv s0 csv r c = (RTrue, s)" and "0 < r" and "0 < c"
  shows "\<exists>N subs rc cc.
           sudoku_N s = Some N \<and> subgrid_coordinates s = Some subs \<and>
           subgrid_row_count s = Some rc \<and> subgrid_column_count s = Some cc \<and>
           rc * cc = int N \<and> partitions_grid N subs"
proof -
  from load_success [OF assms(1)] obtain b N where
    "r * c = int N" "sudoku_N s = Some N"
    "subgrid_row_count s = Some r" "subgrid_column_count s = Some c"
    "subgrid_coordinates s = Some (set_subgrid_coordinates r c)"
    by blast
  with loaded_partitions [OF assms(2,3)] show ?thesis by blast
qed

theorem loaded_subgrids_partition_board_witness:
  "load_board_csv init_sudoku
       (Some [''0,0,0,4\<newline>'', ''0,0,0,0\<newline>'', ''0,2,0,0\<newline>'', ''0,0,0,0\<newline>'']) 2 2
     = (RTrue, snd (load_board_csv init_sudoku
       (Some [''0,0,0,4\<newline>'', ''0,0,0,0\<newline>'', ''0,2,0,0\<newline>'', ''0,0,0,0\<newline>'']) 2 2)) \<and>
   partitions_grid 4
     [[(0, 0), (0, 1), (1, 0), (1, 1)], [(0, 2), (0, 3), (1, 2), (1, 3)],
      [(2, 0), (2, 1), (3, 0), (3, 1)], [(2, 2), (2, 3), (3, 2), (3, 3)]]"
proof -
  let ?csv = "Some [''0,0,0,4\<newline>'', ''0,0,0,0\<newline>'', ''0,2,0,0\<newline>'', ''0,0,0,0\<newline>'']"
  let ?s = "snd (load_board_csv init_sudoku ?csv 2 2)"
  have ok: "load_board_csv init_sudoku ?csv 2 2 = (RTrue, ?s)" by code_simp
  have N: "sudoku_N ?s = Some 4" by code_simp
  have subs: "subgrid_coordinates ?s = Some
     [[(0, 0), (0, 1), (1, 0), (1, 1)], [(0, 2), (0, 3), (1, 2), (1, 3)],
      [(2, 0), (2, 1), (3, 0), (3, 1)], [(2, 2), (2, 3), (3, 2), (3, 3)]]" by code_simp
  from loaded_subgrids_partition_board [OF ok] obtain N' subs' where
    "sudoku_N ?s = Some N'" "subgrid_coordinates ?s = Some subs'" "partitions_grid N' subs'"
    by auto
  with N subs have "partitions_grid 4
     [[(0, 0), (0, 1), (1, 0), (1, 1)], [(0, 2), (0, 3), (1, 2), (1, 3)],
      [(2, 0), (2, 1), (3, 0), (3, 1)], [(2, 2), (2, 3), (3, 2), (3, 3)]]" by simp
  with ok show ?thesis by (rule conjI)
qed

text \<open>
  The counts are required to be positive, and the loader does not check it: with two
  negative counts whose product is the side length the load succeeds, the subgrid map is
  empty, and the search raises TypeError at the first candidate that its row and column
  allow.
\<close>

lemma negative_counts_are_accepted:
  "(case load_board_csv init_sudoku
           (Some [''0,0,0,0\<newline>'', ''0,0,0,0\<newline>'', ''0,0,0,0\<newline>'', ''0,0,0,0\<newline>''])
           (- 2) (- 2) of
      (res, s) \<Rightarrow>
        res = RTrue \<and> subgrid_coordinates s = Some [] \<and> backtrack s = Inl TypeError)"
  by code_simp

section \<open>The solver before a load\<close>

text \<open>
  Claim C10: when the board, the side length or the subgrid coordinates are still
  \<open>None\<close>, \<open>backtrack\<close> returns \<open>False\<close>, raises nothing and leaves every attribute
  of the instance as it was.
\<close>

theorem backtrack_before_load:
  "board s = None \<or> sudoku_N s = None \<or> subgrid_coordinates s = None
     \<Longrightarrow> backtrack s = Inr (False, s)"
  by (auto simp: backtrack_def split: option.splits)

theorem backtrack_before_load_witness:
  "board init_sudoku = None \<and> backtrack init_sudoku = Inr (False, init_sudoku)"
  using backtrack_before_load [of init_sudoku] by (simp add: init_sudoku_def)

section \<open>The search on a well-formed board\<close>

subsection \<open>Reading, writing and validating cells\<close>

lemma get_cell_wf:
  "wf_grid N b \<Longrightarrow> x < N \<Longrightarrow> y < N \<Longrightarrow> get_cell b x y = Inr (cell_at b (x, y))"
  by (simp add: wf_grid_def get_cell_def cell_at_def)

lemma set_cell_wf:
  "wf_grid N b \<Longrightarrow> x < N \<Longrightarrow> y < N \<Longrightarrow> set_cell b x y v = Inr (put b (x, y) v)"
  by (simp add: wf_grid_def set_cell_def put_def)

lemma wf_grid_put: "wf_grid N b \<Longrightarrow> wf_grid N (put b co v)"
proof -
  assume wf: "wf_grid N b"
  show ?thesis
  proof (cases "fst co < length b")
    case True
    then have "length ((b ! fst co)[snd co := v]) = N"
      using wf by (simp add: wf_grid_def)
    with wf show ?thesis
      by (auto simp: wf_grid_def put_def dest!: subsetD [OF set_update_subset_insert])
  next
    case False
    with wf show ?thesis by (simp add: put_def list_update_beyond)
  qed
qed

lemma cell_at_put:
  "wf_grid N b \<Longrightarrow> fst co < N \<Longrightarrow> snd co < N \<Longrightarrow> fst co' < N \<Longrightarrow>
     cell_at (put b co v) co' = (if co' = co then v else cell_at b co')"
  by (auto simp: wf_grid_def cell_at_def put_def nth_list_update prod_eq_iff)

lemma put_same: "cell_at b co = v \<Longrightarrow> put b co v = b"
  by (auto simp: cell_at_def put_def)

lemma put_put: "put (put b co d) co v = put b co v"
  by (cases "fst co < length b") (simp_all add: put_def list_update_beyond)

lemma check_row_col_wf:
  "wf_grid N b \<Longrightarrow> fst co < N \<Longrightarrow> snd co < N \<Longrightarrow> \<forall>i\<in>set is. i < N \<Longrightarrow>
     check_row_col b num co is
       = Inr (\<forall>i\<in>set is. num \<noteq> cell_at b (fst co, i) \<and> num \<noteq> cell_at b (i, snd co))"
  by (induction "is") (auto simp: get_cell_wf)

lemma subgrid_nums_wf:
  "wf_grid N b \<Longrightarrow> \<forall>c\<in>set sub. fst c < N \<and> snd c < N \<Longrightarrow>
     subgrid_nums b sub = Inr (map (cell_at b) sub)"
  by (induction sub) (auto simp: get_cell_wf)

lemma get_subgrid_from_coord_wf:
  assumes "partitions_grid N subs" "fst co < N" "snd co < N"
  shows "\<exists>sub. get_subgrid_from_coord subs co = Some sub \<and> sub \<in> set subs \<and> co \<in> set sub"
proof -
  from assms obtain sub where "sub \<in> set subs" "co \<in> set sub"
    unfolding partitions_grid_def by (metis atLeastLessThan_iff le0 prod.collapse)
  then have "List.find (\<lambda>sub. co \<in> set sub) subs \<noteq> None"
    by (auto simp: find_None_iff)
  then obtain sub' where "List.find (\<lambda>sub. co \<in> set sub) subs = Some sub'" by auto
  then show ?thesis
    by (auto simp: get_subgrid_from_coord_def find_Some_iff)
qed

lemma subgrid_unique:
  assumes "partitions_grid N subs" "fst co < N" "snd co < N"
    "s1 \<in> set subs" "co \<in> set s1" "s2 \<in> set subs" "co \<in> set s2"
  shows "s1 = s2"
proof -
  have "fst co \<in> {0..<N}" "snd co \<in> {0..<N}" using assms(2,3) by simp_all
  then have "\<exists>!sub. sub \<in> set subs \<and> (fst co, snd co) \<in> set sub"
    using assms(1) unfolding partitions_grid_def by blast
  with assms(4-7) show ?thesis by auto
qed

lemma validate_wf:
  assumes pg: "partitions_grid N subs" and wf: "wf_grid N b"
    and co: "fst co < N" "snd co < N"
  shows "validate_num_at_coord N subs b num co
           = Inr (\<forall>co'. peers N subs co co' \<longrightarrow> cell_at b co' \<noteq> num)"
proof -
  have rc: "check_row_col b num co [0..<N]
       = Inr (\<forall>i\<in>set [0..<N]. num \<noteq> cell_at b (fst co, i) \<and> num \<noteq> cell_at b (i, snd co))"
    using wf co by (intro check_row_col_wf) auto
  from get_subgrid_from_coord_wf [OF pg co] obtain sub0
    where sub0: "get_subgrid_from_coord subs co = Some sub0" "sub0 \<in> set subs" "co \<in> set sub0"
    by blast
  have rng: "\<forall>c\<in>set sub0. fst c < N \<and> snd c < N"
    using pg sub0(2) unfolding partitions_grid_def by blast
  have nums: "subgrid_nums b sub0 = Inr (map (cell_at b) sub0)"
    using wf rng by (rule subgrid_nums_wf)
  have eq: "(\<forall>co'. peers N subs co co' \<longrightarrow> cell_at b co' \<noteq> num) \<longleftrightarrow>
        (\<forall>i\<in>set [0..<N]. num \<noteq> cell_at b (fst co, i) \<and> num \<noteq> cell_at b (i, snd co)) \<and>
        num \<notin> set (map (cell_at b) sub0)"
    (is "?L \<longleftrightarrow> ?R1 \<and> ?R2")
  proof (intro iffI conjI)
    assume L: ?L
    show ?R1
    proof
      fix i assume "i \<in> set [0..<N]"
      then have "peers N subs co (fst co, i)" "peers N subs co (i, snd co)"
        using co by (simp_all add: peers_def)
      with L show "num \<noteq> cell_at b (fst co, i) \<and> num \<noteq> cell_at b (i, snd co)" by metis
    qed
    show ?R2
    proof
      assume "num \<in> set (map (cell_at b) sub0)"
      then obtain c where c: "c \<in> set sub0" "cell_at b c = num" by auto
      then have "peers N subs co c"
        using rng sub0 by (auto simp: peers_def)
      with L c show False by blast
    qed
  next
    assume R: "?R1 \<and> ?R2"
    show ?L
    proof (intro allI impI)
      fix co' assume p: "peers N subs co co'"
      then have in': "fst co' < N" "snd co' < N" by (simp_all add: peers_def)
      from p consider "fst co' = fst co" | "snd co' = snd co"
        | sub where "sub \<in> set subs" "co \<in> set sub" "co' \<in> set sub"
        by (auto simp: peers_def)
      then show "cell_at b co' \<noteq> num"
      proof cases
        case 1
        then have "co' = (fst co, snd co')" by (simp add: prod_eq_iff)
        with R in' show ?thesis by (metis atLeast0LessThan lessThan_iff set_upt)
      next
        case 2
        then have "co' = (fst co', snd co)" by (simp add: prod_eq_iff)
        with R in' show ?thesis by (metis atLeast0LessThan lessThan_iff set_upt)
      next
        case 3
        then have "sub = sub0" using subgrid_unique [OF pg co] sub0 by blast
        with 3 R show ?thesis by auto
      qed
    qed
  qed
  have "validate_num_at_coord N subs b num co = (if \<not> ?R1 then Inr False else Inr ?R2)"
    unfolding validate_num_at_coord_def rc sub0(1) nums
    by (simp only: sum.case option.case nums)
  also have "\<dots> = Inr (?R1 \<and> ?R2)"
    by (cases ?R1) simp_all
  also have "\<dots> = Inr ?L"
    by (simp only: eq)
  finally show ?thesis .
qed

lemma coord_of_in_grid: "idx < N ^ 2 \<Longrightarrow> fst (coord_of N idx) < N \<and> snd (coord_of N idx) < N"
proof -
  assume a: "idx < N ^ 2"
  then have "0 < N" by (cases N) simp_all
  moreover from a have "idx div N < N"
    by (simp add: power2_eq_square less_mult_imp_div_less)
  ultimately show ?thesis by (simp add: coord_of_def)
qed

lemma get_coord_from_index_pos: "0 < N \<Longrightarrow> get_coord_from_index N i = Inr (coord_of N i)"
  by (simp add: get_coord_from_index_def coord_of_def)

lemma next_index_pos:
  "0 < N \<Longrightarrow> next_index N prot i
     = Inr (if coord_of N (i + 1) \<in> set prot then i + 2 else i + 1)"
  by (simp add: next_index_def get_coord_from_index_pos)

subsection \<open>One step of the search\<close>

lemma next_of_gt: "idx < next_of N prot idx"
  by (simp add: next_of_def)

lemma next_index_next_of: "0 < N \<Longrightarrow> next_index N prot i = Inr (next_of N prot i)"
  by (simp add: next_index_pos next_of_def)

lemma pos_side: "idx < (N::nat) ^ 2 \<Longrightarrow> 0 < N"
  by (rule ccontr) simp

lemma process_board_step:
  "process_board N subs prot idx b =
     (if N ^ 2 \<le> idx then Inr (True, b)
      else try_candidates N subs prot idx (coord_of N idx) 1 b)"
proof (cases "N ^ 2 \<le> idx")
  case True
  then show ?thesis by (simp add: process_board.simps)
next
  case False
  then have "0 < N" by (intro pos_side [of idx]) simp
  with False show ?thesis
    by (simp add: process_board.simps get_coord_from_index_pos)
qed

lemma try_candidates_step:
  assumes "partitions_grid N subs" "wf_grid N b" "idx < N ^ 2"
  shows "try_candidates N subs prot idx (coord_of N idx) d b =
     (if N < d then Inr (False, put b (coord_of N idx) 0)
      else if \<not> (\<forall>co'. peers N subs (coord_of N idx) co' \<longrightarrow> cell_at b co' \<noteq> int d)
        then try_candidates N subs prot idx (coord_of N idx) (d + 1) b
      else (case process_board N subs prot (next_of N prot idx) (put b (coord_of N idx) (int d)) of
              Inl e \<Rightarrow> Inl e
            | Inr (found, b2) \<Rightarrow>
                if found then Inr (True, b2)
                else try_candidates N subs prot idx (coord_of N idx) (d + 1) b2))"
proof -
  have co: "fst (coord_of N idx) < N" "snd (coord_of N idx) < N"
    using coord_of_in_grid [OF assms(3)] by simp_all
  have N: "0 < N" using assms(3) by (rule pos_side)
  define valid where "valid \<longleftrightarrow> (\<forall>co'. peers N subs (coord_of N idx) co' \<longrightarrow> cell_at b co' \<noteq> int d)"
  have val: "validate_num_at_coord N subs b (int d) (coord_of N idx) = Inr valid"
    unfolding valid_def using assms(1,2) co by (rule validate_wf)
  have "try_candidates N subs prot idx (coord_of N idx) d b =
     (if N < d then Inr (False, put b (coord_of N idx) 0)
      else if \<not> valid
        then try_candidates N subs prot idx (coord_of N idx) (d + 1) b
      else (case process_board N subs prot (next_of N prot idx) (put b (coord_of N idx) (int d)) of
              Inl e \<Rightarrow> Inl e
            | Inr (found, b2) \<Rightarrow>
                if found then Inr (True, b2)
                else try_candidates N subs prot idx (coord_of N idx) (d + 1) b2))"
    by (subst try_candidates.simps)
       (simp add: val set_cell_wf [OF assms(2) co] next_index_next_of [OF N])
  then show ?thesis unfolding valid_def .
qed

lemma search_returns:
  shows "partitions_grid N subs \<Longrightarrow> wf_grid N b \<Longrightarrow>
      \<exists>found b'. process_board N subs prot idx b = Inr (found, b') \<and> wf_grid N b'"
    and "partitions_grid N subs \<Longrightarrow> wf_grid N b \<Longrightarrow> idx < N ^ 2 \<Longrightarrow> co = coord_of N idx \<Longrightarrow>
      \<exists>found b'. try_candidates N subs prot idx co d b = Inr (found, b') \<and> wf_grid N b'"
proof (induction N subs prot idx b and N subs prot idx co d b
    rule: process_board_try_candidates.induct)
  case (1 N subs prot idx b)
  show ?case
  proof (cases "N ^ 2 \<le> idx")
    case True
    with 1 show ?thesis by (auto simp: process_board_step)
  next
    case False
    then have "0 < N" by (intro pos_side [of idx]) simp
    then have "get_coord_from_index N idx = Inr (coord_of N idx)"
      by (rule get_coord_from_index_pos)
    from "1.IH" [OF False this "1.prems"] False
    show ?thesis by (simp add: process_board_step)
  qed
next
  case (2 N subs prot idx co d b)
  note pg = "2.prems"(1) and wf = "2.prems"(2) and idx = "2.prems"(3) and co = "2.prems"(4)
  have cog: "fst co < N" "snd co < N"
    using coord_of_in_grid [OF idx] co by simp_all
  have N: "0 < N" using idx by (rule pos_side)
  let ?valid = "\<forall>co'. peers N subs co co' \<longrightarrow> cell_at b co' \<noteq> int d"
  have val: "validate_num_at_coord N subs b (int d) co = Inr ?valid"
    using pg wf cog by (rule validate_wf)
  have step: "try_candidates N subs prot idx co d b =
     (if N < d then Inr (False, put b co 0)
      else if \<not> ?valid then try_candidates N subs prot idx co (d + 1) b
      else (case process_board N subs prot (next_of N prot idx) (put b co (int d)) of
              Inl e \<Rightarrow> Inl e
            | Inr (found, b2) \<Rightarrow>
                if found then Inr (True, b2)
                else try_candidates N subs prot idx co (d + 1) b2))"
    unfolding co by (rule try_candidates_step [OF pg wf idx])
  show ?case
  proof (cases "N < d")
    case True
    with step wf show ?thesis by (auto simp: wf_grid_put)
  next
    case nd: False
    show ?thesis
    proof (cases ?valid)
      case False
      from "2.IH"(1) [OF nd val False pg wf idx co] step nd False
      show ?thesis by simp
    next
      case True
      have sc: "set_cell b (fst co) (snd co) (int d) = Inr (put b co (int d))"
        using set_cell_wf [OF wf cog] by simp
      have nx: "next_index N prot idx = Inr (next_of N prot idx)"
        using N by (rule next_index_next_of)
      have wf1: "wf_grid N (put b co (int d))" using wf by (rule wf_grid_put)
      from "2.IH"(2) [OF nd val _ sc nx pg wf1] True
      obtain found b2 where
        pb: "process_board N subs prot (next_of N prot idx) (put b co (int d)) = Inr (found, b2)"
        and wf2: "wf_grid N b2" by auto
      show ?thesis
      proof (cases found)
        case True
        with step nd \<open>?valid\<close> pb wf2 show ?thesis by auto
      next
        case False
        from "2.IH"(3) [OF nd val _ sc nx pb refl False pg wf2 idx co] \<open>?valid\<close>
          step nd pb False
        show ?thesis by simp
      qed
    qed
  qed
qed

lemma tc_exhausted:
  assumes "partitions_grid N subs" "wf_grid N b" "idx < N ^ 2" "N < d"
  shows "try_candidates N subs prot idx (coord_of N idx) d b = Inr (False, put b (coord_of N idx) 0)"
  using assms(4) by (simp add: try_candidates_step [OF assms(1-3)])

lemma tc_invalid:
  assumes "partitions_grid N subs" "wf_grid N b" "idx < N ^ 2" "d \<le> N"
    "\<not> (\<forall>co'. peers N subs (coord_of N idx) co' \<longrightarrow> cell_at b co' \<noteq> int d)"
  shows "try_candidates N subs prot idx (coord_of N idx) d b
           = try_candidates N subs prot idx (coord_of N idx) (d + 1) b"
proof -
  from assms(4) have "\<not> N < d" by simp
  then show ?thesis
    by (simp only: try_candidates_step [OF assms(1-3), of prot d] if_False assms(5) if_True not_False_eq_True)
qed

lemma tc_valid:
  assumes "partitions_grid N subs" "wf_grid N b" "idx < N ^ 2" "d \<le> N"
    "\<forall>co'. peers N subs (coord_of N idx) co' \<longrightarrow> cell_at b co' \<noteq> int d"
    "process_board N subs prot (next_of N prot idx) (put b (coord_of N idx) (int d)) = Inr (res, b2)"
  shows "try_candidates N subs prot idx (coord_of N idx) d b
           = (if res then Inr (True, b2)
              else try_candidates N subs prot idx (coord_of N idx) (d + 1) b2)"
proof -
  from assms(4) have "\<not> N < d" by simp
  moreover note v = eqTrueI [OF assms(5)]
  ultimately show ?thesis
    by (simp only: try_candidates_step [OF assms(1-3), of prot d] if_False v assms(6)
          not_True_eq_False sum.case prod.case)
qed


subsection \<open>The indices of the search\<close>

lemma search_indices_past: "N ^ 2 \<le> idx \<Longrightarrow> search_indices N prot idx = []"
  by (subst search_indices.simps) simp

lemma search_indices_step:
  "idx < N ^ 2 \<Longrightarrow> search_indices N prot idx = idx # search_indices N prot (next_of N prot idx)"
  by (subst search_indices.simps) (simp add: next_index_next_of pos_side)

lemma search_indices_bounds:
  "j \<in> set (search_indices N prot idx) \<Longrightarrow> idx \<le> j \<and> j < N ^ 2"
proof (induction N prot idx rule: search_indices.induct)
  case (1 N prot idx)
  show ?case
  proof (cases "N ^ 2 \<le> idx")
    case True
    with "1.prems" show ?thesis by (simp add: search_indices_past)
  next
    case False
    then have idx: "idx < N ^ 2" by simp
    then have nx: "next_index N prot idx = Inr (next_of N prot idx)"
      by (simp add: next_index_next_of pos_side)
    from "1.prems" idx consider "j = idx" | "j \<in> set (search_indices N prot (next_of N prot idx))"
      by (auto simp: search_indices_step)
    then show ?thesis
    proof cases
      case 1
      with idx show ?thesis by simp
    next
      case 2
      from "1.IH" [OF False nx 2] next_of_gt [of idx N prot] show ?thesis by simp
    qed
  qed
qed

lemma skipped_is_protected:
  "idx \<le> j \<Longrightarrow> j < N ^ 2 \<Longrightarrow> j \<notin> set (search_indices N prot idx) \<Longrightarrow> coord_of N j \<in> set prot"
proof (induction N prot idx rule: search_indices.induct)
  case (1 N prot idx)
  from "1.prems"(1,2) have idx: "idx < N ^ 2" by simp
  then have nx: "next_index N prot idx = Inr (next_of N prot idx)"
    by (simp add: next_index_next_of pos_side)
  from idx have nle: "\<not> N ^ 2 \<le> idx" by simp
  from "1.prems"(3) idx have ne: "j \<noteq> idx"
    and notin: "j \<notin> set (search_indices N prot (next_of N prot idx))"
    by (simp_all add: search_indices_step)
  show ?case
  proof (cases "next_of N prot idx \<le> j")
    case True
    from "1.IH" [OF nle nx True "1.prems"(2) notin] show ?thesis .
  next
    case False
    with ne "1.prems"(1) have "j = idx + 1 \<and> next_of N prot idx = idx + 2"
      by (auto simp: next_of_def split: if_splits)
    then show ?thesis by (auto simp: next_of_def split: if_splits)
  qed
qed

lemma coord_of_inj: "coord_of N i = coord_of N j \<Longrightarrow> i = j"
  by (metis coord_of_def div_mult_mod_eq prod.inject)

lemma coord_of_surj:
  assumes "fst co < N" "snd co < N"
  shows "co = coord_of N (fst co * N + snd co) \<and> fst co * N + snd co < N ^ 2"
proof -
  have "fst co * N + snd co < Suc (fst co) * N" using assms(2) by simp
  also have "\<dots> \<le> N * N" using assms(1) by (intro mult_le_mono1) simp
  finally have "fst co * N + snd co < N ^ 2" by (simp add: power2_eq_square)
  moreover have "co = coord_of N (fst co * N + snd co)"
    using assms by (simp add: coord_of_def prod_eq_iff)
  ultimately show ?thesis by simp
qed

subsection \<open>Induction over the search\<close>

lemma search_induct:
  assumes pg: "partitions_grid N subs"
    and pb_done: "\<And>idx b. wf_grid N b \<Longrightarrow> N ^ 2 \<le> idx \<Longrightarrow> P idx b"
    and pb_enter: "\<And>idx b. wf_grid N b \<Longrightarrow> idx < N ^ 2 \<Longrightarrow> Q idx 1 b \<Longrightarrow> P idx b"
    and tc_exhausted: "\<And>idx d b. wf_grid N b \<Longrightarrow> idx < N ^ 2 \<Longrightarrow> N < d \<Longrightarrow> Q idx d b"
    and tc_invalid: "\<And>idx d b. wf_grid N b \<Longrightarrow> idx < N ^ 2 \<Longrightarrow> d \<le> N \<Longrightarrow>
        \<not> (\<forall>co'. peers N subs (coord_of N idx) co' \<longrightarrow> cell_at b co' \<noteq> int d) \<Longrightarrow>
        Q idx (d + 1) b \<Longrightarrow> Q idx d b"
    and tc_found: "\<And>idx d b b2. wf_grid N b \<Longrightarrow> idx < N ^ 2 \<Longrightarrow> d \<le> N \<Longrightarrow>
        (\<forall>co'. peers N subs (coord_of N idx) co' \<longrightarrow> cell_at b co' \<noteq> int d) \<Longrightarrow>
        process_board N subs prot (next_of N prot idx) (put b (coord_of N idx) (int d))
          = Inr (True, b2) \<Longrightarrow>
        wf_grid N b2 \<Longrightarrow>
        P (next_of N prot idx) (put b (coord_of N idx) (int d)) \<Longrightarrow> Q idx d b"
    and tc_retry: "\<And>idx d b b2. wf_grid N b \<Longrightarrow> idx < N ^ 2 \<Longrightarrow> d \<le> N \<Longrightarrow>
        (\<forall>co'. peers N subs (coord_of N idx) co' \<longrightarrow> cell_at b co' \<noteq> int d) \<Longrightarrow>
        process_board N subs prot (next_of N prot idx) (put b (coord_of N idx) (int d))
          = Inr (False, b2) \<Longrightarrow>
        wf_grid N b2 \<Longrightarrow>
        P (next_of N prot idx) (put b (coord_of N idx) (int d)) \<Longrightarrow>
        Q idx (d + 1) b2 \<Longrightarrow> Q idx d b"
  shows "(wf_grid N b \<longrightarrow> P idx b) \<and> (wf_grid N b \<longrightarrow> idx < N ^ 2 \<longrightarrow> Q idx d b)"
proof -
  have both: "(\<forall>b. wf_grid N b \<longrightarrow> P idx b) \<and>
      (idx < N ^ 2 \<longrightarrow> (\<forall>d b. wf_grid N b \<longrightarrow> Q idx d b))" for idx
  proof (induction "N ^ 2 - idx" arbitrary: idx rule: less_induct)
    case less
    have ihp: "P idx' b" if "idx < idx'" "idx < N ^ 2" "wf_grid N b" for idx' b
    proof -
      have "N ^ 2 - idx' < N ^ 2 - idx" using that(1,2) by simp
      from less [OF this] that(3) show ?thesis by blast
    qed
    have q: "Q idx d b" if idx: "idx < N ^ 2" and wf: "wf_grid N b" for d b
      using wf
    proof (induction "N + 1 - d" arbitrary: d b rule: less_induct)
      case inner: less
      note wf = inner.prems
      let ?co = "coord_of N idx"
      let ?valid = "\<forall>co'. peers N subs ?co co' \<longrightarrow> cell_at b co' \<noteq> int d"
      show ?case
      proof (cases "N < d")
        case True
        with wf idx show ?thesis by (rule tc_exhausted)
      next
        case False
        then have dN: "d \<le> N" by simp
        then have smaller: "N + 1 - (d + 1) < N + 1 - d" by simp
        show ?thesis
        proof (cases ?valid)
          case False
          from inner.hyps [OF smaller wf] have "Q idx (d + 1) b" .
          with wf idx dN False show ?thesis by (rule tc_invalid)
        next
          case True
          let ?b1 = "put b ?co (int d)"
          have wf1: "wf_grid N ?b1" using wf by (rule wf_grid_put)
          from search_returns(1) [OF pg wf1] obtain res b2 where
            pb: "process_board N subs prot (next_of N prot idx) ?b1 = Inr (res, b2)"
            and wf2: "wf_grid N b2" by blast
          have p: "P (next_of N prot idx) ?b1"
            using next_of_gt idx wf1 by (rule ihp)
          show ?thesis
          proof (cases res)
            case True
            with pb have "process_board N subs prot (next_of N prot idx) ?b1 = Inr (True, b2)"
              by simp
            with wf idx dN \<open>?valid\<close> show ?thesis using wf2 p by (rule tc_found)
          next
            case False
            with pb have pbf: "process_board N subs prot (next_of N prot idx) ?b1 = Inr (False, b2)"
              by simp
            from inner.hyps [OF smaller wf2] have "Q idx (d + 1) b2" .
            with wf idx dN \<open>?valid\<close> pbf wf2 p show ?thesis by (rule tc_retry)
          qed
        qed
      qed
    qed
    have p: "P idx b" if wf: "wf_grid N b" for b
    proof (cases "N ^ 2 \<le> idx")
      case True
      with wf show ?thesis by (rule pb_done)
    next
      case False
      then have idx: "idx < N ^ 2" by simp
      from wf idx q [OF idx wf] show ?thesis by (rule pb_enter)
    qed
    from p q show ?case by blast
  qed
  from both show ?thesis by blast
qed

subsection \<open>Cells outside the search; undoing a failed search\<close>

lemma search_frame_both:
  assumes pg: "partitions_grid N subs"
  shows "(wf_grid N b \<longrightarrow>
           (\<forall>res b'. process_board N subs prot idx b = Inr (res, b') \<longrightarrow>
              (\<forall>co. fst co < N \<longrightarrow> snd co < N \<longrightarrow>
                 co \<notin> coord_of N ` set (search_indices N prot idx) \<longrightarrow>
                 cell_at b' co = cell_at b co))) \<and>
         (wf_grid N b \<longrightarrow> idx < N ^ 2 \<longrightarrow>
           (\<forall>res b'. try_candidates N subs prot idx (coord_of N idx) d b = Inr (res, b') \<longrightarrow>
              (\<forall>co. fst co < N \<longrightarrow> snd co < N \<longrightarrow>
                 co \<notin> coord_of N ` set (search_indices N prot idx) \<longrightarrow>
                 cell_at b' co = cell_at b co)))"
    (is "(_ \<longrightarrow> ?P idx b) \<and> (_ \<longrightarrow> _ \<longrightarrow> ?Q idx d b)")
proof (rule search_induct [OF pg, of ?P ?Q prot], goal_cases)
  case (1 idx b)
  then show ?case by (simp add: process_board_step)
next
  case (2 idx b)
  then show ?case by (simp add: process_board_step)
next
  case (3 idx d b)
  have co: "fst (coord_of N idx) < N" "snd (coord_of N idx) < N"
    using coord_of_in_grid [OF 3(2)] by simp_all
  show ?case
    using 3 co
    by (auto simp: tc_exhausted [OF pg] search_indices_step cell_at_put)
next
  case (4 idx d b)
  then show ?case by (simp add: tc_invalid [OF pg])
next
  case (5 idx d b b2)
  have co: "fst (coord_of N idx) < N" "snd (coord_of N idx) < N"
    using coord_of_in_grid [OF 5(2)] by simp_all
  have step: "try_candidates N subs prot idx (coord_of N idx) d b = Inr (True, b2)"
    using tc_valid [OF pg 5(1,2,3,4,5)] by simp
  show ?case
  proof (intro allI impI)
    fix res b' co'
    assume r: "try_candidates N subs prot idx (coord_of N idx) d b = Inr (res, b')"
      and in': "fst co' < N" "snd co' < N"
      and out: "co' \<notin> coord_of N ` set (search_indices N prot idx)"
    from r step have b': "b' = b2" by simp
    from out 5(2) have ne: "co' \<noteq> coord_of N idx"
      and out': "co' \<notin> coord_of N ` set (search_indices N prot (next_of N prot idx))"
      by (auto simp: search_indices_step)
    from 5(7) 5(5) in' out' have "cell_at b2 co' = cell_at (put b (coord_of N idx) (int d)) co'"
      by blast
    also have "\<dots> = cell_at b co'"
      using ne by (simp add: cell_at_put [OF 5(1) co in'(1)])
    finally show "cell_at b' co' = cell_at b co'" using b' by simp
  qed
next
  case (6 idx d b b2)
  have co: "fst (coord_of N idx) < N" "snd (coord_of N idx) < N"
    using coord_of_in_grid [OF 6(2)] by simp_all
  have step: "try_candidates N subs prot idx (coord_of N idx) d b
      = try_candidates N subs prot idx (coord_of N idx) (d + 1) b2"
    using tc_valid [OF pg 6(1,2,3,4,5)] by simp
  show ?case
  proof (intro allI impI)
    fix res b' co'
    assume r: "try_candidates N subs prot idx (coord_of N idx) d b = Inr (res, b')"
      and in': "fst co' < N" "snd co' < N"
      and out: "co' \<notin> coord_of N ` set (search_indices N prot idx)"
    from out 6(2) have ne: "co' \<noteq> coord_of N idx"
      and out': "co' \<notin> coord_of N ` set (search_indices N prot (next_of N prot idx))"
      by (auto simp: search_indices_step)
    from r step have "try_candidates N subs prot idx (coord_of N idx) (d + 1) b2 = Inr (res, b')"
      by simp
    with 6(8) in' out have "cell_at b' co' = cell_at b2 co'" by blast
    also from 6(7) 6(5) in' out' have "\<dots> = cell_at (put b (coord_of N idx) (int d)) co'"
      by blast
    also have "\<dots> = cell_at b co'"
      using ne by (simp add: cell_at_put [OF 6(1) co in'(1)])
    finally show "cell_at b' co' = cell_at b co'" .
  qed
qed

lemma search_frame:
  assumes "partitions_grid N subs" "wf_grid N b"
    "process_board N subs prot idx b = Inr (res, b')"
    "fst co < N" "snd co < N" "co \<notin> coord_of N ` set (search_indices N prot idx)"
  shows "cell_at b' co = cell_at b co"
  using search_frame_both [OF assms(1), of b prot idx] assms(2-) by blast

lemma search_undo_both:
  assumes pg: "partitions_grid N subs"
  shows "(wf_grid N b \<longrightarrow>
           ((\<forall>j\<in>set (search_indices N prot idx). cell_at b (coord_of N j) = 0) \<longrightarrow>
            (\<forall>b'. process_board N subs prot idx b = Inr (False, b') \<longrightarrow> b' = b))) \<and>
         (wf_grid N b \<longrightarrow> idx < N ^ 2 \<longrightarrow>
           ((\<forall>j\<in>set (search_indices N prot (next_of N prot idx)). cell_at b (coord_of N j) = 0) \<longrightarrow>
            (\<forall>b'. try_candidates N subs prot idx (coord_of N idx) d b = Inr (False, b') \<longrightarrow>
               b' = put b (coord_of N idx) 0)))"
    (is "(_ \<longrightarrow> ?P idx b) \<and> (_ \<longrightarrow> _ \<longrightarrow> ?Q idx d b)")
proof (rule search_induct [OF pg, of ?P ?Q prot], goal_cases)
  case (1 idx b)
  then show ?case by (simp add: process_board_step)
next
  case (2 idx b)
  show ?case
  proof (intro allI impI)
    fix b'
    assume zero: "\<forall>j\<in>set (search_indices N prot idx). cell_at b (coord_of N j) = 0"
      and r: "process_board N subs prot idx b = Inr (False, b')"
    from zero 2(2) have z0: "cell_at b (coord_of N idx) = 0"
      and zr: "\<forall>j\<in>set (search_indices N prot (next_of N prot idx)). cell_at b (coord_of N j) = 0"
      by (simp_all add: search_indices_step)
    from r 2(2) have "try_candidates N subs prot idx (coord_of N idx) 1 b = Inr (False, b')"
      by (simp add: process_board_step)
    with 2(3) zr have "b' = put b (coord_of N idx) 0" by blast
    with z0 show "b' = b" by (simp add: put_same)
  qed
next
  case (3 idx d b)
  then show ?case by (simp add: tc_exhausted [OF pg])
next
  case (4 idx d b)
  then show ?case by (simp add: tc_invalid [OF pg])
next
  case (5 idx d b b2)
  have "try_candidates N subs prot idx (coord_of N idx) d b = Inr (True, b2)"
    using tc_valid [OF pg 5(1,2,3,4,5)] by simp
  then show ?case by simp
next
  case (6 idx d b b2)
  let ?co = "coord_of N idx"
  have co: "fst ?co < N" "snd ?co < N"
    using coord_of_in_grid [OF 6(2)] by simp_all
  have step: "try_candidates N subs prot idx ?co d b
      = try_candidates N subs prot idx ?co (d + 1) b2"
    using tc_valid [OF pg 6(1,2,3,4,5)] by simp
  show ?case
  proof (intro allI impI)
    fix b'
    assume zero: "\<forall>j\<in>set (search_indices N prot (next_of N prot idx)). cell_at b (coord_of N j) = 0"
      and r: "try_candidates N subs prot idx ?co d b = Inr (False, b')"
    have zero1: "\<forall>j\<in>set (search_indices N prot (next_of N prot idx)).
        cell_at (put b ?co (int d)) (coord_of N j) = 0"
    proof
      fix j assume j: "j \<in> set (search_indices N prot (next_of N prot idx))"
      then have jb: "next_of N prot idx \<le> j" "j < N ^ 2"
        using search_indices_bounds by blast+
      then have "j \<noteq> idx" using next_of_gt [of idx N prot] by simp
      then have "coord_of N j \<noteq> ?co" using coord_of_inj by blast
      moreover have "fst (coord_of N j) < N" using coord_of_in_grid [OF jb(2)] by simp
      ultimately show "cell_at (put b ?co (int d)) (coord_of N j) = 0"
        using zero j by (simp add: cell_at_put [OF 6(1) co])
    qed
    with 6(7) 6(5) have b2: "b2 = put b ?co (int d)" by blast
    from r step have "try_candidates N subs prot idx ?co (d + 1) b2 = Inr (False, b')" by simp
    with 6(8) zero1 b2 have "b' = put b2 ?co 0" by blast
    with b2 show "b' = put b ?co 0" by (simp add: put_put)
  qed
qed

lemma search_undo:
  assumes "partitions_grid N subs" "wf_grid N b"
    "\<forall>j\<in>set (search_indices N prot idx). cell_at b (coord_of N j) = 0"
    "process_board N subs prot idx b = Inr (False, b')"
  shows "b' = b"
  using search_undo_both [OF assms(1), of b prot idx] assms(2-) by blast

subsection \<open>Searching a cell that already holds a value\<close>

lemma failed_search_zeroes_both:
  assumes pg: "partitions_grid N subs"
  shows "(wf_grid N b \<longrightarrow>
           (idx < N ^ 2 \<longrightarrow>
             (\<forall>b'. process_board N subs prot idx b = Inr (False, b') \<longrightarrow>
                cell_at b' (coord_of N idx) = 0))) \<and>
         (wf_grid N b \<longrightarrow> idx < N ^ 2 \<longrightarrow>
           (\<forall>b'. try_candidates N subs prot idx (coord_of N idx) d b = Inr (False, b') \<longrightarrow>
              cell_at b' (coord_of N idx) = 0))"
    (is "(_ \<longrightarrow> ?P idx b) \<and> (_ \<longrightarrow> _ \<longrightarrow> ?Q idx d b)")
proof (rule search_induct [OF pg, of ?P ?Q prot], goal_cases)
  case (1 idx b)
  then show ?case by simp
next
  case (2 idx b)
  then show ?case by (simp add: process_board_step)
next
  case (3 idx d b)
  have co: "fst (coord_of N idx) < N" "snd (coord_of N idx) < N"
    using coord_of_in_grid [OF 3(2)] by simp_all
  show ?case
    using 3 by (simp add: tc_exhausted [OF pg] cell_at_put [OF 3(1) co co(1)])
next
  case (4 idx d b)
  then show ?case by (simp add: tc_invalid [OF pg])
next
  case (5 idx d b b2)
  have "try_candidates N subs prot idx (coord_of N idx) d b = Inr (True, b2)"
    using tc_valid [OF pg 5(1,2,3,4,5)] by simp
  then show ?case by simp
next
  case (6 idx d b b2)
  have "try_candidates N subs prot idx (coord_of N idx) d b
      = try_candidates N subs prot idx (coord_of N idx) (d + 1) b2"
    using tc_valid [OF pg 6(1,2,3,4,5)] by simp
  with 6(8) show ?case by simp
qed


lemma full_row_rejects:
  assumes pg: "partitions_grid N subs" and wf: "wf_grid N b" and N: "0 < N"
    and row: "each_once N (b ! 0)"
  shows "process_board N subs prot 0 b = Inr (False, put b (0, 0) 0)"
proof -
  have idx: "0 < N ^ 2" using N by simp
  have co: "coord_of N 0 = (0, 0)" by (simp add: coord_of_def)
  have taken: "\<not> (\<forall>co'. peers N subs (coord_of N 0) co' \<longrightarrow> cell_at b co' \<noteq> int d)"
    if d: "1 \<le> d" "d \<le> N" for d
  proof -
    from d have "int d \<in> set [1..int N]" by simp
    with row have "count_list (b ! 0) (int d) = 1" unfolding each_once_def by blast
    then have "int d \<in> set (b ! 0)" by (metis count_notin zero_neq_one)
    then obtain y where y: "y < length (b ! 0)" "b ! 0 ! y = int d"
      by (auto simp: in_set_conv_nth)
    with wf N have "y < N" by (simp add: wf_grid_def)
    with N have "peers N subs (coord_of N 0) (0, y)" by (simp add: peers_def co)
    moreover from y have "cell_at b (0, y) = int d" by (simp add: cell_at_def)
    ultimately show ?thesis by blast
  qed
  have tc: "try_candidates N subs prot 0 (coord_of N 0) d b = Inr (False, put b (coord_of N 0) 0)"
    if "1 \<le> d" for d
    using that
  proof (induction "N + 1 - d" arbitrary: d rule: less_induct)
    case less
    show ?case
    proof (cases "N < d")
      case True
      with pg wf idx show ?thesis by (rule tc_exhausted)
    next
      case False
      then have dN: "d \<le> N" by simp
      then have "N + 1 - (d + 1) < N + 1 - d" by simp
      from less.hyps [OF this] have "try_candidates N subs prot 0 (coord_of N 0) (d + 1) b
          = Inr (False, put b (coord_of N 0) 0)" by simp
      with tc_invalid [OF pg wf idx dN taken [OF less.prems dN], of prot] show ?thesis by simp
    qed
  qed
  from tc [of 1] idx show ?thesis by (simp add: process_board_step co)
qed


subsection \<open>Cells the search has filled\<close>

lemma peers_sym:
  "peers N subs co co' \<Longrightarrow> fst co < N \<Longrightarrow> snd co < N \<Longrightarrow> peers N subs co' co"
  by (auto simp: peers_def)

lemma search_settles_both:
  assumes pg: "partitions_grid N subs"
  shows "(wf_grid N b \<longrightarrow>
           (\<forall>b'. process_board N subs prot idx b = Inr (True, b') \<longrightarrow>
              (\<forall>j\<in>set (search_indices N prot idx). settled N subs b' (coord_of N j)))) \<and>
         (wf_grid N b \<longrightarrow> idx < N ^ 2 \<longrightarrow>
           (1 \<le> d \<longrightarrow>
             (\<forall>b'. try_candidates N subs prot idx (coord_of N idx) d b = Inr (True, b') \<longrightarrow>
                (\<forall>j\<in>set (search_indices N prot idx). settled N subs b' (coord_of N j)))))"
    (is "(_ \<longrightarrow> ?P idx b) \<and> (_ \<longrightarrow> _ \<longrightarrow> ?Q idx d b)")
proof (rule search_induct [OF pg, of ?P ?Q prot], goal_cases)
  case (1 idx b)
  then show ?case by (simp add: search_indices_past)
next
  case (2 idx b)
  then show ?case by (simp add: process_board_step)
next
  case (3 idx d b)
  then show ?case by (simp add: tc_exhausted [OF pg])
next
  case (4 idx d b)
  then show ?case by (simp add: tc_invalid [OF pg])
next
  case (5 idx d b b2)
  let ?co = "coord_of N idx"
  let ?b1 = "put b ?co (int d)"
  let ?nxt = "next_of N prot idx"
  have co: "fst ?co < N" "snd ?co < N"
    using coord_of_in_grid [OF 5(2)] by simp_all
  have wf1: "wf_grid N ?b1" using 5(1) by (rule wf_grid_put)
  have step: "try_candidates N subs prot idx ?co d b = Inr (True, b2)"
    using tc_valid [OF pg 5(1,2,3,4,5)] by simp
  have later: "?co \<notin> coord_of N ` set (search_indices N prot ?nxt)"
  proof
    assume "?co \<in> coord_of N ` set (search_indices N prot ?nxt)"
    then obtain j where j: "j \<in> set (search_indices N prot ?nxt)" "coord_of N j = ?co"
      by auto
    then have "j = idx" using coord_of_inj by blast
    moreover from j(1) have "?nxt \<le> j" using search_indices_bounds by blast
    ultimately show False using next_of_gt [of idx N prot] by simp
  qed
  have frame: "cell_at b2 co' = cell_at ?b1 co'"
    if "fst co' < N" "snd co' < N" "co' \<notin> coord_of N ` set (search_indices N prot ?nxt)" for co'
    using pg wf1 5(5) that by (rule search_frame)
  have here: "cell_at b2 ?co = int d"
    using frame [OF co later] by (simp add: cell_at_put [OF 5(1) co co(1)])
  have ih: "\<forall>j\<in>set (search_indices N prot ?nxt). settled N subs b2 (coord_of N j)"
    using 5(7) 5(5) by blast
  show ?case
  proof (intro allI impI ballI)
    fix b' j
    assume d1: "1 \<le> d"
      and r: "try_candidates N subs prot idx ?co d b = Inr (True, b')"
      and j: "j \<in> set (search_indices N prot idx)"
    from r step have b': "b' = b2" by simp
    from j 5(2) consider "j = idx" | "j \<in> set (search_indices N prot ?nxt)"
      by (auto simp: search_indices_step)
    then show "settled N subs b' (coord_of N j)"
    proof cases
      case 2
      with ih b' show ?thesis by blast
    next
      case 1
      have "cell_at b2 co' \<noteq> int d" if p: "peers N subs ?co co'" and ne: "co' \<noteq> ?co" for co'
      proof (cases "co' \<in> coord_of N ` set (search_indices N prot ?nxt)")
        case True
        then obtain k where "k \<in> set (search_indices N prot ?nxt)" "co' = coord_of N k"
          by auto
        with ih have "settled N subs b2 co'" by blast
        then have "\<forall>co''. peers N subs co' co'' \<longrightarrow> co'' \<noteq> co' \<longrightarrow>
            cell_at b2 co'' \<noteq> cell_at b2 co'"
          by (simp add: settled_def)
        moreover have "peers N subs co' ?co" using p co by (rule peers_sym)
        ultimately have "cell_at b2 ?co \<noteq> cell_at b2 co'"
          using ne by blast
        with here show ?thesis by simp
      next
        case False
        from p have in': "fst co' < N" "snd co' < N" by (simp_all add: peers_def)
        from frame [OF in' False] have "cell_at b2 co' = cell_at b co'"
          using ne by (simp add: cell_at_put [OF 5(1) co in'(1)])
        moreover from 5(4) p have "cell_at b co' \<noteq> int d" by blast
        ultimately show ?thesis by simp
      qed
      with here d1 5(3) 1 b' show ?thesis by (simp add: settled_def)
    qed
  qed
next
  case (6 idx d b b2)
  have step: "try_candidates N subs prot idx (coord_of N idx) d b
      = try_candidates N subs prot idx (coord_of N idx) (d + 1) b2"
    using tc_valid [OF pg 6(1,2,3,4,5)] by simp
  with 6(8) show ?case by simp
qed

lemma search_settles:
  assumes "partitions_grid N subs" "wf_grid N b"
    "process_board N subs prot idx b = Inr (True, b')"
    "j \<in> set (search_indices N prot idx)"
  shows "settled N subs b' (coord_of N j)"
  using search_settles_both [OF assms(1), of b prot idx] assms(2-) by blast

lemma count_list_distinct: "distinct xs \<Longrightarrow> x \<in> set xs \<Longrightarrow> count_list xs x = 1"
  by (induction xs) auto

lemma each_once_distinct:
  assumes "length vals = N" "distinct vals" "\<forall>v\<in>set vals. 1 \<le> v \<and> v \<le> int N"
  shows "each_once N vals"
proof -
  have sub: "set vals \<subseteq> {1..int N}" using assms(3) by auto
  have "card (set vals) = N" using assms(1,2) by (simp add: distinct_card)
  then have "card (set vals) = card {1..int N}" by simp
  with sub have "set vals = {1..int N}" by (intro card_subset_eq) simp_all
  with assms(2) show ?thesis by (simp add: each_once_def count_list_distinct)
qed

lemma all_settled_solved:
  assumes pg: "partitions_grid N subs" and wf: "wf_grid N b"
    and all: "\<forall>x<N. \<forall>y<N. settled N subs b (x, y)"
  shows "solved N subs b"
proof -
  have rng: "1 \<le> cell_at b (x, y) \<and> cell_at b (x, y) \<le> int N" if "x < N" "y < N" for x y
    using all that by (simp add: settled_def)
  have diff: "cell_at b co' \<noteq> cell_at b co"
    if "fst co < N" "snd co < N" "peers N subs co co'" "co' \<noteq> co" for co co'
  proof -
    from all that(1,2) have "settled N subs b (fst co, snd co)" by blast
    then have "\<forall>c. peers N subs co c \<longrightarrow> c \<noteq> co \<longrightarrow> cell_at b c \<noteq> cell_at b co"
      by (simp add: settled_def)
    with that(3,4) show ?thesis by blast
  qed
  have rows: "each_once N (b ! x)" if x: "x \<in> {0..<N}" for x
  proof (rule each_once_distinct)
    from x wf show len: "length (b ! x) = N" by (simp add: wf_grid_def)
    show "distinct (b ! x)"
      unfolding distinct_conv_nth
    proof (intro allI impI)
      fix i j assume ij: "i < length (b ! x)" "j < length (b ! x)" "i \<noteq> j"
      with len x have "peers N subs (x, i) (x, j)" by (simp add: peers_def)
      with diff [of "(x, i)" "(x, j)"] ij len x
      show "b ! x ! i \<noteq> b ! x ! j" by (auto simp: cell_at_def)
    qed
    show "\<forall>v\<in>set (b ! x). 1 \<le> v \<and> v \<le> int N"
    proof
      fix v assume "v \<in> set (b ! x)"
      then obtain y where "y < length (b ! x)" "v = b ! x ! y"
        by (auto simp: in_set_conv_nth)
      with rng [of x y] len x show "1 \<le> v \<and> v \<le> int N" by (simp add: cell_at_def)
    qed
  qed
  have cols: "each_once N (map (\<lambda>x. b ! x ! y) [0..<N])" if y: "y \<in> {0..<N}" for y
  proof (rule each_once_distinct)
    show "length (map (\<lambda>x. b ! x ! y) [0..<N]) = N" by simp
    show "distinct (map (\<lambda>x. b ! x ! y) [0..<N])"
      unfolding distinct_conv_nth
    proof (intro allI impI)
      fix i j
      assume ij: "i < length (map (\<lambda>x. b ! x ! y) [0..<N])"
        "j < length (map (\<lambda>x. b ! x ! y) [0..<N])" "i \<noteq> j"
      with y have "peers N subs (i, y) (j, y)" by (simp add: peers_def)
      with diff [of "(i, y)" "(j, y)"] ij y
      show "map (\<lambda>x. b ! x ! y) [0..<N] ! i \<noteq> map (\<lambda>x. b ! x ! y) [0..<N] ! j"
        by (auto simp: cell_at_def)
    qed
    show "\<forall>v\<in>set (map (\<lambda>x. b ! x ! y) [0..<N]). 1 \<le> v \<and> v \<le> int N"
      using rng y by (auto simp: cell_at_def)
  qed
  have subgrids: "each_once N (map (cell_at b) sub)" if sub: "sub \<in> set subs" for sub
  proof (rule each_once_distinct)
    from pg sub have props: "length sub = N" "distinct sub"
      "\<forall>co\<in>set sub. fst co < N \<and> snd co < N"
      unfolding partitions_grid_def by blast+
    then show "length (map (cell_at b) sub) = N" by simp
    have "inj_on (cell_at b) (set sub)"
    proof (rule inj_onI)
      fix c1 c2 assume c: "c1 \<in> set sub" "c2 \<in> set sub" "cell_at b c1 = cell_at b c2"
      show "c1 = c2"
      proof (rule ccontr)
        assume ne: "c1 \<noteq> c2"
        from c props(3) sub have "peers N subs c1 c2" by (auto simp: peers_def)
        with diff [of c1 c2] c props(3) ne show False by auto
      qed
    qed
    with props(2) show "distinct (map (cell_at b) sub)" by (simp add: distinct_map)
    show "\<forall>v\<in>set (map (cell_at b) sub). 1 \<le> v \<and> v \<le> int N"
    proof
      fix v assume "v \<in> set (map (cell_at b) sub)"
      then obtain co where "co \<in> set sub" "v = cell_at b co" by auto
      with props(3) rng [of "fst co" "snd co"] show "1 \<le> v \<and> v \<le> int N" by simp
    qed
  qed
  from rows cols subgrids show ?thesis by (simp add: solved_def)
qed


subsection \<open>Counting a value by rows and by columns\<close>

lemma count_list_sum: "count_list xs g = (\<Sum>k<length xs. if xs ! k = g then 1 else 0)"
proof (induction xs)
  case Nil
  show ?case by simp
next
  case (Cons x xs)
  have "(\<Sum>k<length (x # xs). if (x # xs) ! k = g then 1 else (0::nat))
      = (if (x # xs) ! 0 = g then 1 else 0)
        + (\<Sum>k<length xs. if (x # xs) ! Suc k = g then 1 else 0)"
    unfolding length_Cons by (rule sum.lessThan_Suc_shift)
  also have "\<dots> = (if x = g then 1 else 0) + count_list xs g"
    by (simp add: Cons.IH)
  finally show ?case by simp
qed

lemma count_rows_cols:
  assumes "wf_grid N b"
  shows "(\<Sum>x<N. count_list (b ! x) g) = (\<Sum>y<N. count_list (map (\<lambda>x. b ! x ! y) [0..<N]) g)"
proof -
  have "(\<Sum>x<N. count_list (b ! x) g) = (\<Sum>x<N. \<Sum>y<N. if b ! x ! y = g then 1 else 0)"
    using assms by (intro sum.cong) (simp_all add: count_list_sum wf_grid_def)
  also have "\<dots> = (\<Sum>y<N. \<Sum>x<N. if b ! x ! y = g then 1 else 0)"
    by (rule sum.swap)
  also have "\<dots> = (\<Sum>y<N. count_list (map (\<lambda>x. b ! x ! y) [0..<N]) g)"
    by (intro sum.cong) (simp_all add: count_list_sum)
  finally show ?thesis .
qed

lemma count_list_two:
  assumes "i < length xs" "j < length xs" "i \<noteq> j" "xs ! i = g" "xs ! j = g"
  shows "2 \<le> count_list xs g"
proof -
  have sub: "{i, j} \<subseteq> {..<length xs}" using assms by simp
  have "(2::nat) = (\<Sum>k\<in>{i, j}. if xs ! k = g then 1 else 0)"
    using assms by simp
  also have "\<dots> \<le> (\<Sum>k<length xs. if xs ! k = g then 1 else 0)"
    by (rule sum_mono2 [OF _ sub]) simp_all
  finally show ?thesis by (simp add: count_list_sum)
qed

lemma success_cells:
  assumes pg: "partitions_grid N subs" and wf: "wf_grid N b"
    and pbt: "process_board N subs (set_protected_coordinates b) 0 b = Inr (True, b')"
    and co: "fst co < N" "snd co < N"
  shows "settled N subs b' co \<or> (cell_at b' co = cell_at b co \<and> cell_at b co \<noteq> 0)"
proof (cases "co \<in> coord_of N ` set (search_indices N (set_protected_coordinates b) 0)")
  case True
  then obtain j where "j \<in> set (search_indices N (set_protected_coordinates b) 0)"
    "co = coord_of N j" by auto
  with search_settles [OF pg wf pbt] show ?thesis by simp
next
  case False
  from coord_of_surj [OF co] obtain j where j: "co = coord_of N j" "j < N ^ 2"
    by blast
  with False have "j \<notin> set (search_indices N (set_protected_coordinates b) 0)" by auto
  with j(2) have "coord_of N j \<in> set (set_protected_coordinates b)"
    by (intro skipped_is_protected) simp_all
  with j(1) wf have "cell_at b co \<noteq> 0" by (simp add: set_protected_iff)
  moreover have "cell_at b' co = cell_at b co"
    using pg wf pbt co False by (rule search_frame)
  ultimately show ?thesis by simp
qed

lemma sum_one_doubled:
  assumes "x < N"
  shows "(\<Sum>i<N. if i = x then 2 else (1::nat)) = N + 1"
proof -
  have "(\<Sum>i<N. if i = x then 2 else (1::nat)) = (\<Sum>i<N. 1 + (if i = x then 1 else 0))"
    by (intro sum.cong) simp_all
  also have "\<dots> = (\<Sum>i<N. 1) + (\<Sum>i<N. if i = x then 1 else 0)"
    by (rule sum.distrib)
  also have "\<dots> = N + 1"
    using assms by simp
  finally show ?thesis .
qed


subsection \<open>Depth of the recursion\<close>

lemma depth_same:
  "snd (process_board_depth N subs prot idx b) = process_board N subs prot idx b"
  "snd (try_candidates_depth N subs prot idx co d b) = try_candidates N subs prot idx co d b"
proof (induction N subs prot idx b and N subs prot idx co d b
    rule: process_board_depth_try_candidates_depth.induct)
  case (1 N subs prot idx b)
  then show ?case
    by (subst process_board_depth.simps, subst process_board.simps)
       (auto split: sum.splits)
next
  case (2 N subs prot idx co d b)
  show ?case
  proof (cases "N < d")
    case True
    then show ?thesis
      by (subst try_candidates_depth.simps, subst try_candidates.simps)
         (auto split: sum.splits)
  next
    case nd: False
    show ?thesis
    proof (cases "validate_num_at_coord N subs b (int d) co")
      case (Inl e)
      with nd show ?thesis
        by (subst try_candidates_depth.simps, subst try_candidates.simps) simp
    next
      case (Inr valid)
      show ?thesis
      proof (cases valid)
        case False
        from "2.IH"(1) [OF nd Inr False] nd Inr False show ?thesis
          by (subst try_candidates_depth.simps, subst try_candidates.simps) simp
      next
        case True
        show ?thesis
        proof (cases "set_cell b (fst co) (snd co) (int d)")
          case (Inl e)
          with nd \<open>validate_num_at_coord N subs b (int d) co = Inr valid\<close> True show ?thesis
            by (subst try_candidates_depth.simps, subst try_candidates.simps) simp
        next
          case sc: (Inr b1)
          show ?thesis
          proof (cases "next_index N prot idx")
            case (Inl e)
            with nd \<open>validate_num_at_coord N subs b (int d) co = Inr valid\<close> True sc show ?thesis
              by (subst try_candidates_depth.simps, subst try_candidates.simps) simp
          next
            case nx: (Inr nxt)
            have v: "\<not> \<not> valid" using True by simp
            note ih2 = "2.IH"(2) [OF nd Inr v sc nx]
            obtain k res where pd: "process_board_depth N subs prot nxt b1 = (k, res)"
              by (cases "process_board_depth N subs prot nxt b1")
            with ih2 have pb: "process_board N subs prot nxt b1 = res" by simp
            show ?thesis
            proof (cases res)
              case (Inl e)
              with nd \<open>validate_num_at_coord N subs b (int d) co = Inr valid\<close> True sc nx pd pb
              show ?thesis
                by (subst try_candidates_depth.simps, subst try_candidates.simps) simp
            next
              case r: (Inr fb)
              obtain found b2 where fb: "fb = (found, b2)" by (cases fb)
              show ?thesis
              proof (cases found)
                case True
                with nd \<open>validate_num_at_coord N subs b (int d) co = Inr valid\<close> \<open>valid\<close>
                  sc nx pd pb r fb
                show ?thesis
                  by (subst try_candidates_depth.simps, subst try_candidates.simps) simp
              next
                case False
                note ih3 = "2.IH"(3) [OF nd Inr v sc nx pd [symmetric] r fb [symmetric] False]
                with nd \<open>validate_num_at_coord N subs b (int d) co = Inr valid\<close> \<open>valid\<close>
                  sc nx pd pb r fb False
                show ?thesis
                  by (subst try_candidates_depth.simps, subst try_candidates.simps)
                     (auto split: prod.splits)
              qed
            qed
          qed
        qed
      qed
    qed
  qed
qed


lemma depth_bound:
  "fst (process_board_depth N subs prot idx b) \<le> N ^ 2 - idx"
  "idx < N ^ 2 \<Longrightarrow> fst (try_candidates_depth N subs prot idx co d b) \<le> N ^ 2 - idx"
proof (induction N subs prot idx b and N subs prot idx co d b
    rule: process_board_depth_try_candidates_depth.induct)
  case (1 N subs prot idx b)
  then show ?case
    by (subst process_board_depth.simps) (auto split: sum.splits)
next
  case (2 N subs prot idx co d b)
  note idx = "2.prems"
  show ?case
  proof (cases "N < d")
    case True
    then show ?thesis
      by (subst try_candidates_depth.simps) (auto split: sum.splits)
  next
    case nd: False
    show ?thesis
    proof (cases "validate_num_at_coord N subs b (int d) co")
      case (Inl e)
      with nd show ?thesis
        by (subst try_candidates_depth.simps) simp
    next
      case (Inr valid)
      show ?thesis
      proof (cases valid)
        case False
        from "2.IH"(1) [OF nd Inr False idx] nd Inr False show ?thesis
          by (subst try_candidates_depth.simps) simp
      next
        case True
        show ?thesis
        proof (cases "set_cell b (fst co) (snd co) (int d)")
          case (Inl e)
          with nd \<open>validate_num_at_coord N subs b (int d) co = Inr valid\<close> True show ?thesis
            by (subst try_candidates_depth.simps) simp
        next
          case sc: (Inr b1)
          show ?thesis
          proof (cases "next_index N prot idx")
            case (Inl e)
            with nd \<open>validate_num_at_coord N subs b (int d) co = Inr valid\<close> True sc show ?thesis
              by (subst try_candidates_depth.simps) simp
          next
            case nx: (Inr nxt)
            have v: "\<not> \<not> valid" using True by simp
            have gt: "idx < nxt"
              using nx by (auto simp: next_index_def split: sum.splits if_splits)
            note ih2 = "2.IH"(2) [OF nd Inr v sc nx]
            obtain k res where pd: "process_board_depth N subs prot nxt b1 = (k, res)"
              by (cases "process_board_depth N subs prot nxt b1")
            with ih2 have "k \<le> N ^ 2 - nxt" by simp
            with gt idx have k: "Suc k \<le> N ^ 2 - idx" by simp
            show ?thesis
            proof (cases res)
              case (Inl e)
              with nd \<open>validate_num_at_coord N subs b (int d) co = Inr valid\<close> True sc nx pd k
              show ?thesis
                by (subst try_candidates_depth.simps) simp
            next
              case r: (Inr fb)
              obtain found b2 where fb: "fb = (found, b2)" by (cases fb)
              show ?thesis
              proof (cases found)
                case True
                with nd \<open>validate_num_at_coord N subs b (int d) co = Inr valid\<close> \<open>valid\<close>
                  sc nx pd k r fb
                show ?thesis
                  by (subst try_candidates_depth.simps) simp
              next
                case False
                note ih3 = "2.IH"(3) [OF nd Inr v sc nx pd [symmetric] r fb [symmetric] False idx]
                with nd \<open>validate_num_at_coord N subs b (int d) co = Inr valid\<close> \<open>valid\<close>
                  sc nx pd k r fb False
                show ?thesis
                  by (subst try_candidates_depth.simps) (auto split: prod.splits)
              qed
            qed
          qed
        qed
      qed
    qed
  qed
qed

text \<open>
  Claim C9: \<open>process_board\<close> is a total function: its definition above is accepted with
  a measure that decreases at every call, and \<open>depth_same\<close> shows that the counting
  variant computes the same result. On every loaded state the recursive calls are nested
  at most N * N deep (the top call not counted), every recursive call is made on an index
  strictly greater than the current one and not beyond N * N, and with positive subgrid
  counts \<open>backtrack\<close> returns a result, without an exception.
\<close>

theorem search_depth_bounded:
  assumes "load_board_csv s0 csv r c = (RTrue, s)"
  shows "\<exists>N. sudoku_N s = Some N \<and> backtrack_depth s \<le> N ^ 2 \<and>
           (\<forall>idx nxt. next_index N (protected_coordinates s) idx = Inr nxt \<longrightarrow>
              idx < nxt \<and> (idx < N ^ 2 \<longrightarrow> nxt \<le> N ^ 2)) \<and>
           (0 < r \<and> 0 < c \<longrightarrow> (\<exists>found s'. backtrack s = Inr (found, s')))"
proof -
  from load_success [OF assms] obtain b N where
    wf: "wf_grid N b" and rc: "r * c = int N" and b: "board s = Some b"
    and N: "sudoku_N s = Some N"
    and subs: "subgrid_coordinates s = Some (set_subgrid_coordinates r c)"
    and prot: "protected_coordinates s = set_protected_coordinates b"
    by blast
  let ?subs = "set_subgrid_coordinates r c"
  let ?prot = "protected_coordinates s"
  have "fst (process_board_depth N ?subs ?prot 0 b) \<le> N ^ 2 - 0"
    by (rule depth_bound(1))
  then have depth: "backtrack_depth s \<le> N ^ 2"
    by (simp add: backtrack_depth_def b N subs)
  have incr: "idx < nxt \<and> (idx < N ^ 2 \<longrightarrow> nxt \<le> N ^ 2)"
    if nx: "next_index N ?prot idx = Inr nxt" for idx nxt
  proof -
    from nx have Npos: "0 < N"
      by (auto simp: next_index_def get_coord_from_index_def split: if_splits)
    with nx have nxt: "nxt = next_of N ?prot idx" by (simp add: next_index_next_of)
    show ?thesis
    proof (cases "coord_of N (idx + 1) \<in> set ?prot")
      case False
      with nxt show ?thesis by (simp add: next_of_def)
    next
      case True
      with prot wf have "fst (coord_of N (idx + 1)) < N" by (simp add: set_protected_iff)
      then have "(idx + 1) div N < N" by (simp add: coord_of_def)
      moreover from Npos have "(idx + 1) div N < N \<longleftrightarrow> idx + 1 < N * N"
        by (rule div_less_iff_less_mult)
      ultimately have "idx + 1 < N * N" by blast
      with True nxt show ?thesis by (simp add: next_of_def power2_eq_square)
    qed
  qed
  have ret: "\<exists>found s'. backtrack s = Inr (found, s')" if "0 < r \<and> 0 < c"
  proof -
    from that rc have "partitions_grid N ?subs" by (simp add: loaded_partitions)
    from search_returns(1) [OF this wf, of ?prot 0] obtain found b'
      where "process_board N ?subs ?prot 0 b = Inr (found, b')" by blast
    then show ?thesis by (simp add: backtrack_def b N subs)
  qed
  from N depth incr ret show ?thesis by blast
qed

theorem search_depth_bounded_witness:
  "load_board_csv init_sudoku (Some [''0,0\<newline>'', ''2,0\<newline>'']) 1 2
     = (RTrue, snd (load_board_csv init_sudoku (Some [''0,0\<newline>'', ''2,0\<newline>'']) 1 2)) \<and>
   backtrack_depth (snd (load_board_csv init_sudoku (Some [''0,0\<newline>'', ''2,0\<newline>'']) 1 2))
     \<le> 2 ^ 2 \<and>
   (\<exists>found s'. backtrack (snd (load_board_csv init_sudoku (Some [''0,0\<newline>'', ''2,0\<newline>'']) 1 2))
     = Inr (found, s'))"
proof -
  let ?s = "snd (load_board_csv init_sudoku (Some [''0,0\<newline>'', ''2,0\<newline>'']) 1 2)"
  have ok: "load_board_csv init_sudoku (Some [''0,0\<newline>'', ''2,0\<newline>'']) 1 2 = (RTrue, ?s)"
    by code_simp
  have N: "sudoku_N ?s = Some 2" by code_simp
  from search_depth_bounded [OF ok] N
  have "backtrack_depth ?s \<le> 2 ^ 2" "\<exists>found s'. backtrack ?s = Inr (found, s')"
    by auto
  with ok show ?thesis by blast
qed


section \<open>The search on boards with givens\<close>

text \<open>
  Claim C2 fails on the code. \<open>process_board\<close> never asks whether the index it was
  called with is protected: index 0 is always searched. The file below has the given 1
  in the first cell. The search overwrites it with 2, finds no value for the second cell,
  and resets the first cell to 0 before it returns \<open>False\<close>: the board after the failed
  call differs from the loaded board.
\<close>

theorem failed_search_loses_given:
  "(case load_board_csv init_sudoku (Some [''1,0\<newline>'', ''0,1\<newline>'']) 1 2 of
      (res, s) \<Rightarrow>
        res = RTrue \<and> board s = Some [[1, 0], [0, 1]] \<and>
        protected_coordinates s = [(0, 0), (1, 1)] \<and>
        (case backtrack s of
           Inl e \<Rightarrow> False
         | Inr (found, s') \<Rightarrow> \<not> found \<and> board s' = Some [[0, 0], [0, 1]]))"
  by code_simp

text \<open>
  The same holds for every loaded board with positive subgrid counts: whenever the search
  fails, the first cell of the board is 0 afterwards, whether or not it was a given.
\<close>

lemma failed_search_zeroes_first_cell:
  assumes load: "load_board_csv s0 csv r c = (RTrue, s)" and pos: "0 < r" "0 < c"
    and b: "board s = Some b" and fail: "backtrack s = Inr (False, s')"
  shows "\<exists>b'. board s' = Some b' \<and> cell_at b' (0, 0) = 0"
proof -
  from load_success [OF load] b obtain N where
    wf: "wf_grid N b" and rc: "r * c = int N" and N: "sudoku_N s = Some N"
    and subs: "subgrid_coordinates s = Some (set_subgrid_coordinates r c)"
    by auto
  let ?subs = "set_subgrid_coordinates r c"
  let ?prot = "protected_coordinates s"
  have pg: "partitions_grid N ?subs" using pos rc by (rule loaded_partitions)
  from pos rc have "0 < N" by (metis mult_pos_pos of_nat_0_less_iff)
  then have idx: "0 < N ^ 2" by simp
  from fail obtain b' where pb: "process_board N ?subs ?prot 0 b = Inr (False, b')"
    and s': "board s' = Some b'"
    by (auto simp: backtrack_def b N subs split: sum.splits)
  from wf idx pb
  have "cell_at b' (coord_of N 0) = 0"
    using failed_search_zeroes_both [OF pg, of b 0 ?prot] by blast
  with s' show ?thesis by (simp add: coord_of_def)
qed

text \<open>
  Claim C3 fails on the code, by the same missing check. Here the search succeeds, and the
  given 1 of the first cell, a protected coordinate, has become 2.
\<close>

theorem successful_search_overwrites_given:
  "(case load_board_csv init_sudoku (Some [''1,0\<newline>'', ''0,0\<newline>'']) 1 2 of
      (res, s) \<Rightarrow>
        res = RTrue \<and> board s = Some [[1, 0], [0, 0]] \<and>
        protected_coordinates s = [(0, 0)] \<and>
        (case backtrack s of
           Inl e \<Rightarrow> False
         | Inr (found, s') \<Rightarrow> found \<and> board s' = Some [[2, 1], [1, 2]]))"
  by code_simp

text \<open>
  Claim C4 fails on the code, by the same missing check. On a completely solved 4 by 4
  board every candidate for the first cell is already in its row, so the search sets that
  cell to 0 and returns \<open>False\<close>.
\<close>

theorem solved_board_is_rejected:
  "(case load_board_csv init_sudoku
           (Some [''1,2,3,4\<newline>'', ''3,4,1,2\<newline>'', ''2,1,4,3\<newline>'', ''4,3,2,1\<newline>'']) 2 2 of
      (res, s) \<Rightarrow>
        res = RTrue \<and>
        board s = Some [[1, 2, 3, 4], [3, 4, 1, 2], [2, 1, 4, 3], [4, 3, 2, 1]] \<and>
        (case backtrack s of
           Inl e \<Rightarrow> False
         | Inr (found, s') \<Rightarrow>
             \<not> found \<and>
             board s' = Some [[0, 2, 3, 4], [3, 4, 1, 2], [2, 1, 4, 3], [4, 3, 2, 1]]))"
  by code_simp

text \<open>
  The same holds for every loaded board with positive subgrid counts that is already
  solved: the search returns \<open>False\<close> and the first cell is set to 0.
\<close>

lemma solved_board_never_accepted:
  assumes load: "load_board_csv s0 csv r c = (RTrue, s)" and pos: "0 < r" "0 < c"
    and b: "board s = Some b" and N: "sudoku_N s = Some N"
    and subs: "subgrid_coordinates s = Some subs"
    and solved: "solved N subs b"
  shows "backtrack s = Inr (False, s\<lparr>board := Some (put b (0, 0) 0)\<rparr>)"
    and "put b (0, 0) 0 \<noteq> b"
proof -
  from load_success [OF load] b N subs have
    wf: "wf_grid N b" and rc: "r * c = int N"
    and subs_eq: "subs = set_subgrid_coordinates r c"
    by auto
  have pg: "partitions_grid N subs" unfolding subs_eq using pos rc by (rule loaded_partitions)
  from pos rc have Npos: "0 < N"
    by (metis mult_pos_pos of_nat_0_less_iff)
  with solved have row: "each_once N (b ! 0)" by (simp add: solved_def)
  from full_row_rejects [OF pg wf Npos row]
  show "backtrack s = Inr (False, s\<lparr>board := Some (put b (0, 0) 0)\<rparr>)"
    by (simp add: backtrack_def b N subs)
  have "cell_at (put b (0, 0) 0) (0, 0) = 0"
    using Npos by (simp add: cell_at_put [OF wf])
  moreover have "cell_at b (0, 0) \<noteq> 0"
  proof
    assume z: "cell_at b (0, 0) = 0"
    from wf Npos have len: "length (b ! 0) = N" by (simp add: wf_grid_def)
    have "count_list (b ! 0) v = 1" if "v \<in> {1..int N}" for v
      using row that by (simp add: each_once_def)
    then have sub: "{1..int N} \<subseteq> set (b ! 0)"
      by (metis count_notin subsetI zero_neq_one)
    have "card (set (b ! 0)) \<le> card {1..int N}"
      using card_length [of "b ! 0"] len by simp
    with sub have "{1..int N} = set (b ! 0)" by (intro card_seteq) simp_all
    moreover from len Npos z have "0 \<in> set (b ! 0)"
      by (metis cell_at_def fst_conv nth_mem snd_conv)
    ultimately have "(0::int) \<in> {1..int N}" by simp
    then show False by simp
  qed
  ultimately show "put b (0, 0) 0 \<noteq> b" by metis
qed

text \<open>
  Claim C5, as stated, fails: the givens are never compared with one another. In the 9 by
  9 file below the second row holds the given 8 twice (the second of them also repeats an
  8 of its column and an 8 of its subgrid). The first cell is empty and no two givens are
  neighbours in row-major order, so the search goes through empty cells only; it skips
  both 8s, fills every empty cell and returns \<open>True\<close>.
\<close>

theorem duplicate_in_row_search_succeeds:
  "(case load_board_csv init_sudoku
           (Some [''0,2,0,4,0,6,0,8,0\<newline>'',
                  ''4,0,6,0,8,0,8,0,3\<newline>'',
                  ''0,8,0,1,0,3,0,5,0\<newline>'',
                  ''2,0,4,0,6,0,8,0,7\<newline>'',
                  ''0,6,0,8,0,7,0,1,0\<newline>'',
                  ''8,0,7,0,1,0,3,0,5\<newline>'',
                  ''0,3,0,6,0,2,0,7,0\<newline>'',
                  ''6,0,2,0,7,0,5,0,1\<newline>'',
                  ''0,7,0,5,0,1,0,4,0\<newline>'']) 3 3 of
      (res, s) \<Rightarrow>
        res = RTrue \<and>
        map (\<lambda>row. row ! 4) (the (board s)) ! 1 = 8 \<and>
        map (\<lambda>row. row ! 6) (the (board s)) ! 1 = 8 \<and>
        (case backtrack s of
           Inl e \<Rightarrow> False
         | Inr (found, s') \<Rightarrow>
             found \<and>
             board s' = Some
               [[1, 2, 3, 4, 5, 6, 7, 8, 9],
                [4, 5, 6, 7, 8, 9, 8, 2, 3],
                [7, 8, 9, 1, 2, 3, 4, 5, 6],
                [2, 1, 4, 3, 6, 5, 8, 9, 7],
                [3, 6, 5, 8, 9, 7, 2, 1, 4],
                [8, 9, 7, 2, 1, 4, 3, 6, 5],
                [5, 3, 1, 6, 4, 2, 9, 7, 8],
                [6, 4, 2, 9, 7, 8, 5, 3, 1],
                [9, 7, 8, 5, 3, 1, 6, 4, 2]]))"
  by code_simp


text \<open>
  On such a board, whatever else is wrong with its givens, the two equal givens are still
  in their cells after the search, and a failed search leaves the instance as it was.
\<close>

lemma duplicate_givens_stay:
  assumes load: "load_board_csv s0 csv r c = (RTrue, s)" and pos: "0 < r" "0 < c"
    and b: "board s = Some b" and N: "sudoku_N s = Some N"
    and dup: "x < N" "ya < N" "yb < N" "ya \<noteq> yb"
      "cell_at b (x, ya) = cell_at b (x, yb)" "cell_at b (x, ya) \<noteq> 0"
    and empty: "\<forall>j\<in>set (search_indices N (protected_coordinates s) 0).
                  cell_at b (coord_of N j) = 0"
  shows "\<exists>found s' b'. backtrack s = Inr (found, s') \<and> board s' = Some b' \<and>
           cell_at b' (x, ya) = cell_at b (x, ya) \<and> cell_at b' (x, yb) = cell_at b (x, yb) \<and>
           (\<not> found \<longrightarrow> s' = s)"
proof -
  from load_success [OF load] b N obtain
    wf: "wf_grid N b" and rc: "r * c = int N"
    and subs: "subgrid_coordinates s = Some (set_subgrid_coordinates r c)"
    by auto
  let ?subs = "set_subgrid_coordinates r c"
  let ?prot = "protected_coordinates s"
  have pg: "partitions_grid N ?subs" using pos rc by (rule loaded_partitions)
  from search_returns(1) [OF pg wf, of ?prot 0] obtain found b'
    where pb: "process_board N ?subs ?prot 0 b = Inr (found, b')" by blast
  then have bt: "backtrack s = Inr (found, s\<lparr>board := Some b'\<rparr>)"
    by (simp add: backtrack_def b N subs)
  have out: "(x, y) \<notin> coord_of N ` set (search_indices N ?prot 0)"
    if "cell_at b (x, y) \<noteq> 0" for y
    using that empty by auto
  have k1: "cell_at b' (x, ya) = cell_at b (x, ya)"
    using pg wf pb by (rule search_frame) (use dup out in simp_all)
  have k2: "cell_at b' (x, yb) = cell_at b (x, yb)"
    using pg wf pb by (rule search_frame) (use dup out in simp_all)
  have undo: "s\<lparr>board := Some b'\<rparr> = s" if "\<not> found"
  proof -
    from that pb have "process_board N ?subs ?prot 0 b = Inr (False, b')" by simp
    with pg wf empty have "b' = b" by (rule search_undo)
    with b show ?thesis by simp
  qed
  from bt k1 k2 undo show ?thesis by auto
qed

text \<open>
  Claim C5, amended: on a loaded board of any side length in which one row holds the same
  non-zero given twice, whose givens are proper but for that pair, and on which the search
  goes through empty cells only, the solver returns failure and leaves the instance, board
  included, exactly as it was loaded. (A success would give a board whose columns each hold
  the duplicated value once and whose rows hold it once, and twice in the one row; counting
  the value by rows and by columns gives two different numbers.)
\<close>

theorem duplicate_in_row_fails:
  assumes load: "load_board_csv s0 csv r c = (RTrue, s)" and pos: "0 < r" "0 < c"
    and b: "board s = Some b" and N: "sudoku_N s = Some N"
    and subs: "subgrid_coordinates s = Some subs"
    and dup: "x < N" "ya < N" "yb < N" "ya \<noteq> yb"
      "cell_at b (x, ya) = cell_at b (x, yb)" "cell_at b (x, ya) \<noteq> 0"
    and rest: "givens_proper_but N subs b (x, ya) (x, yb)"
    and empty: "\<forall>j\<in>set (search_indices N (protected_coordinates s) 0).
                  cell_at b (coord_of N j) = 0"
  shows "backtrack s = Inr (False, s)"
proof -
  from load_success [OF load] b N subs have
    wf: "wf_grid N b" and rc: "r * c = int N"
    and subs_eq: "subs = set_subgrid_coordinates r c"
    and prot: "protected_coordinates s = set_protected_coordinates b"
    by auto
  let ?prot = "set_protected_coordinates b"
  let ?p = "(x, ya)" and ?q = "(x, yb)"
  let ?g = "cell_at b (x, ya)"
  have pg: "partitions_grid N subs" unfolding subs_eq using pos rc by (rule loaded_partitions)
  from search_returns(1) [OF pg wf, of ?prot 0] obtain found b'
    where pb: "process_board N subs ?prot 0 b = Inr (found, b')" and wf': "wf_grid N b'"
    by blast
  then have bt: "backtrack s = Inr (found, s\<lparr>board := Some b'\<rparr>)"
    by (simp add: backtrack_def b N subs prot)
  have gpb: "1 \<le> cell_at b (i, y) \<and> cell_at b (i, y) \<le> int N \<and>
      (\<forall>i' y'. i' < N \<longrightarrow> y' < N \<longrightarrow> (i', y') \<noteq> (i, y) \<longrightarrow>
         \<not> ((i, y) = ?p \<and> (i', y') = ?q) \<longrightarrow> \<not> ((i, y) = ?q \<and> (i', y') = ?p) \<longrightarrow>
         peers N subs (i, y) (i', y') \<longrightarrow> cell_at b (i', y') \<noteq> 0 \<longrightarrow>
         cell_at b (i', y') \<noteq> cell_at b (i, y))"
    if "i < N" "y < N" "cell_at b (i, y) \<noteq> 0" for i y
    using rest that unfolding givens_proper_but_def by simp
  have grange: "1 \<le> ?g" "?g \<le> int N"
    using gpb [OF dup(1,2,6)] by simp_all
  have nf: "\<not> found"
  proof
    assume found
    with pb have pbt: "process_board N subs ?prot 0 b = Inr (True, b')" by simp
    note cells = success_cells [OF pg wf pbt]
    have out: "(x, y) \<notin> coord_of N ` set (search_indices N ?prot 0)"
      if "cell_at b (x, y) \<noteq> 0" for y
      using that empty prot by auto
    have pv: "cell_at b' ?p = ?g"
      using pg wf pbt by (rule search_frame) (use dup out in simp_all)
    have qv: "cell_at b' ?q = ?g"
      using search_frame [OF pg wf pbt, of ?q] dup out by simp
    have rng: "1 \<le> cell_at b' (i, y) \<and> cell_at b' (i, y) \<le> int N" if "i < N" "y < N" for i y
      using cells [of "(i, y)"] that gpb [OF that] by (auto simp: settled_def)
    have diff: "cell_at b' (i', y') \<noteq> cell_at b' (i, y)"
      if iy: "i < N" "y < N" and iy': "i' < N" "y' < N" and ne: "(i', y') \<noteq> (i, y)"
        and np: "\<not> ((i, y) = ?p \<and> (i', y') = ?q)" "\<not> ((i, y) = ?q \<and> (i', y') = ?p)"
        and p: "peers N subs (i, y) (i', y')" for i y i' y'
    proof -
      have p': "peers N subs (i', y') (i, y)" by (rule peers_sym [OF p]) (use iy in simp_all)
      from cells [of "(i, y)"] cells [of "(i', y')"] iy iy'
      consider "settled N subs b' (i, y)" | "settled N subs b' (i', y')"
        | "cell_at b' (i, y) = cell_at b (i, y)" "cell_at b (i, y) \<noteq> 0"
          "cell_at b' (i', y') = cell_at b (i', y')" "cell_at b (i', y') \<noteq> 0"
        by auto
      then show ?thesis
      proof cases
        case 1
        then have "\<forall>c. peers N subs (i, y) c \<longrightarrow> c \<noteq> (i, y) \<longrightarrow>
            cell_at b' c \<noteq> cell_at b' (i, y)"
          by (simp add: settled_def)
        with p ne show ?thesis by blast
      next
        case 2
        then have "\<forall>c. peers N subs (i', y') c \<longrightarrow> c \<noteq> (i', y') \<longrightarrow>
            cell_at b' c \<noteq> cell_at b' (i', y')"
          by (simp add: settled_def)
        with p' ne have "cell_at b' (i, y) \<noteq> cell_at b' (i', y')" by metis
        then show ?thesis by simp
      next
        case 3
        from gpb [OF iy 3(2)] iy' ne np p 3(4)
        have "cell_at b (i', y') \<noteq> cell_at b (i, y)" by blast
        with 3 show ?thesis by simp
      qed
    qed
    have cols: "count_list (map (\<lambda>i. b' ! i ! y) [0..<N]) ?g = 1" if y: "y < N" for y
    proof -
      have "each_once N (map (\<lambda>i. b' ! i ! y) [0..<N])"
      proof (rule each_once_distinct)
        show "length (map (\<lambda>i. b' ! i ! y) [0..<N]) = N" by simp
        show "distinct (map (\<lambda>i. b' ! i ! y) [0..<N])"
          unfolding distinct_conv_nth
        proof (intro allI impI)
          fix i j
          assume ij: "i < length (map (\<lambda>i. b' ! i ! y) [0..<N])"
            "j < length (map (\<lambda>i. b' ! i ! y) [0..<N])" "i \<noteq> j"
          then have lt: "i < N" "j < N" by simp_all
          have "peers N subs (i, y) (j, y)" using lt y by (simp add: peers_def)
          from diff [OF lt(1) y lt(2) y _ _ _ this] ij(3) dup(4)
          have "cell_at b' (j, y) \<noteq> cell_at b' (i, y)" by auto
          with lt show "map (\<lambda>i. b' ! i ! y) [0..<N] ! i \<noteq> map (\<lambda>i. b' ! i ! y) [0..<N] ! j"
            by (auto simp: cell_at_def)
        qed
        show "\<forall>v\<in>set (map (\<lambda>i. b' ! i ! y) [0..<N]). 1 \<le> v \<and> v \<le> int N"
          using rng y by (auto simp: cell_at_def)
      qed
      with grange show ?thesis by (simp add: each_once_def)
    qed
    have rows: "count_list (b' ! i) ?g = 1" if i: "i < N" "i \<noteq> x" for i
    proof -
      have len: "length (b' ! i) = N" using wf' i by (simp add: wf_grid_def)
      have "each_once N (b' ! i)"
      proof (rule each_once_distinct [OF len])
        show "distinct (b' ! i)"
          unfolding distinct_conv_nth
        proof (intro allI impI)
          fix k l assume kl: "k < length (b' ! i)" "l < length (b' ! i)" "k \<noteq> l"
          with len have lt: "k < N" "l < N" by simp_all
          have "peers N subs (i, k) (i, l)" using lt i by (simp add: peers_def)
          from diff [OF i(1) lt(1) i(1) lt(2) _ _ _ this] kl(3) i(2)
          have "cell_at b' (i, l) \<noteq> cell_at b' (i, k)" by auto
          then show "b' ! i ! k \<noteq> b' ! i ! l" by (auto simp: cell_at_def)
        qed
        show "\<forall>v\<in>set (b' ! i). 1 \<le> v \<and> v \<le> int N"
        proof
          fix v assume "v \<in> set (b' ! i)"
          then obtain y where "y < length (b' ! i)" "v = b' ! i ! y"
            by (auto simp: in_set_conv_nth)
          with rng [of i y] len i show "1 \<le> v \<and> v \<le> int N" by (simp add: cell_at_def)
        qed
      qed
      with grange show ?thesis by (simp add: each_once_def)
    qed
    have rowx: "2 \<le> count_list (b' ! x) ?g"
    proof (rule count_list_two [of ya _ yb])
      show "ya < length (b' ! x)" "yb < length (b' ! x)"
        using wf' dup by (simp_all add: wf_grid_def)
      show "ya \<noteq> yb" by (rule dup(4))
      show "b' ! x ! ya = ?g" "b' ! x ! yb = ?g"
        using pv qv by (simp_all add: cell_at_def)
    qed
    have "N + 1 = (\<Sum>i<N. if i = x then 2 else (1::nat))"
      using dup(1) by (simp add: sum_one_doubled)
    also have "\<dots> \<le> (\<Sum>i<N. count_list (b' ! i) ?g)"
      using rows rowx by (intro sum_mono) auto
    also have "\<dots> = (\<Sum>y<N. count_list (map (\<lambda>i. b' ! i ! y) [0..<N]) ?g)"
      using wf' by (rule count_rows_cols)
    also have "\<dots> = (\<Sum>y<N. 1)"
      using cols by (intro sum.cong) simp_all
    also have "\<dots> = N" by simp
    finally show False by simp
  qed
  with pb have pbf: "process_board N subs ?prot 0 b = Inr (False, b')" by simp
  have "b' = b"
    by (rule search_undo [OF pg wf _ pbf]) (use empty prot in simp)
  with bt nf b show ?thesis by simp
qed

theorem duplicate_in_row_fails_witness:
  "load_board_csv init_sudoku
       (Some [''0,5,0,5,0,0,0,0,0\<newline>'', ''0,0,0,0,0,0,0,0,0\<newline>'', ''0,0,0,0,0,0,0,0,0\<newline>'',
              ''0,0,0,0,0,0,0,0,0\<newline>'', ''0,0,0,0,0,0,0,0,0\<newline>'', ''0,0,0,0,0,0,0,0,0\<newline>'',
              ''0,0,0,0,0,0,0,0,0\<newline>'', ''0,0,0,0,0,0,0,0,0\<newline>'', ''0,0,0,0,0,0,0,0,0\<newline>'']) 3 3
     = (RTrue, snd (load_board_csv init_sudoku
       (Some [''0,5,0,5,0,0,0,0,0\<newline>'', ''0,0,0,0,0,0,0,0,0\<newline>'', ''0,0,0,0,0,0,0,0,0\<newline>'',
              ''0,0,0,0,0,0,0,0,0\<newline>'', ''0,0,0,0,0,0,0,0,0\<newline>'', ''0,0,0,0,0,0,0,0,0\<newline>'',
              ''0,0,0,0,0,0,0,0,0\<newline>'', ''0,0,0,0,0,0,0,0,0\<newline>'', ''0,0,0,0,0,0,0,0,0\<newline>'']) 3 3)) \<and>
   backtrack (snd (load_board_csv init_sudoku
       (Some [''0,5,0,5,0,0,0,0,0\<newline>'', ''0,0,0,0,0,0,0,0,0\<newline>'', ''0,0,0,0,0,0,0,0,0\<newline>'',
              ''0,0,0,0,0,0,0,0,0\<newline>'', ''0,0,0,0,0,0,0,0,0\<newline>'', ''0,0,0,0,0,0,0,0,0\<newline>'',
              ''0,0,0,0,0,0,0,0,0\<newline>'', ''0,0,0,0,0,0,0,0,0\<newline>'', ''0,0,0,0,0,0,0,0,0\<newline>'']) 3 3))
     = Inr (False, snd (load_board_csv init_sudoku
       (Some [''0,5,0,5,0,0,0,0,0\<newline>'', ''0,0,0,0,0,0,0,0,0\<newline>'', ''0,0,0,0,0,0,0,0,0\<newline>'',
              ''0,0,0,0,0,0,0,0,0\<newline>'', ''0,0,0,0,0,0,0,0,0\<newline>'', ''0,0,0,0,0,0,0,0,0\<newline>'',
              ''0,0,0,0,0,0,0,0,0\<newline>'', ''0,0,0,0,0,0,0,0,0\<newline>'', ''0,0,0,0,0,0,0,0,0\<newline>'']) 3 3))"
proof -
  let ?csv = "Some [''0,5,0,5,0,0,0,0,0\<newline>'', ''0,0,0,0,0,0,0,0,0\<newline>'', ''0,0,0,0,0,0,0,0,0\<newline>'',
              ''0,0,0,0,0,0,0,0,0\<newline>'', ''0,0,0,0,0,0,0,0,0\<newline>'', ''0,0,0,0,0,0,0,0,0\<newline>'',
              ''0,0,0,0,0,0,0,0,0\<newline>'', ''0,0,0,0,0,0,0,0,0\<newline>'', ''0,0,0,0,0,0,0,0,0\<newline>'']"
  let ?s = "snd (load_board_csv init_sudoku ?csv 3 3)"
  let ?b = "[[0, 5, 0, 5, 0, 0, 0, 0, 0], [0, 0, 0, 0, 0, 0, 0, 0, 0],
             [0, 0, 0, 0, 0, 0, 0, 0, 0], [0, 0, 0, 0, 0, 0, 0, 0, 0],
             [0, 0, 0, 0, 0, 0, 0, 0, 0], [0, 0, 0, 0, 0, 0, 0, 0, 0],
             [0, 0, 0, 0, 0, 0, 0, 0, 0], [0, 0, 0, 0, 0, 0, 0, 0, 0],
             [0, 0, 0, 0, 0, 0, 0, 0, 0]] :: grid"
  let ?subs = "set_subgrid_coordinates 3 3"
  have ok: "load_board_csv init_sudoku ?csv 3 3 = (RTrue, ?s)" by code_simp
  have b: "board ?s = Some ?b" by code_simp
  have N: "sudoku_N ?s = Some 9" by code_simp
  have subs: "subgrid_coordinates ?s = Some ?subs" by code_simp
  have eq: "cell_at ?b (0, 1) = cell_at ?b (0, 3)" by code_simp
  have nz: "cell_at ?b (0, 1) \<noteq> 0" by code_simp
  have rest: "givens_proper_but 9 ?subs ?b (0, 1) (0, 3)" by code_simp
  have empty: "\<forall>j\<in>set (search_indices 9 (protected_coordinates ?s) 0).
      cell_at ?b (coord_of 9 j) = 0" by code_simp
  have "backtrack ?s = Inr (False, ?s)"
    by (rule duplicate_in_row_fails
          [where x = 0 and ya = 1 and yb = 3, OF ok _ _ b N subs _ _ _ _ eq nz rest empty])
       simp_all
  with ok show ?thesis by (rule conjI)
qed

text \<open>
  Claim C1, as stated, fails, for the same reason as C5: givens that the search skips are
  never compared with one another. The 4 by 4 file below has the given 4 twice in its
  first row (and twice in its second column). The search returns \<open>True\<close>, and the first
  row of the resulting board is 1, 4, 2, 4.
\<close>

theorem success_with_invalid_board:
  "(case load_board_csv init_sudoku
           (Some [''0,4,0,4\<newline>'', ''0,4,0,0\<newline>'', ''0,0,0,0\<newline>'', ''0,0,0,0\<newline>'']) 2 2 of
      (res, s) \<Rightarrow>
        res = RTrue \<and>
        (case backtrack s of
           Inl e \<Rightarrow> False
         | Inr (found, s') \<Rightarrow>
             found \<and>
             board s' = Some [[1, 4, 2, 4], [2, 4, 1, 3], [3, 1, 4, 2], [4, 2, 3, 1]] \<and>
             \<not> each_once 4 (the (board s') ! 0) \<and>
             \<not> solved 4 (the (subgrid_coordinates s')) (the (board s'))))"
  by code_simp


text \<open>
  Claim C1, amended: for every state produced by a successful load with positive subgrid
  counts whose givens are proper (each in 1..N, no two equal in one row, column or
  subgrid), if the solver returns success, then every row, every column and every subgrid
  of the resulting board holds each value of 1..N exactly once.
\<close>

theorem success_gives_solved_board:
  assumes load: "load_board_csv s0 csv r c = (RTrue, s)" and pos: "0 < r" "0 < c"
    and b: "board s = Some b" and N: "sudoku_N s = Some N"
    and subs: "subgrid_coordinates s = Some subs"
    and proper: "givens_proper N subs b"
    and ok: "backtrack s = Inr (True, s')"
  shows "\<exists>b'. board s' = Some b' \<and> solved N subs b'"
proof -
  from load_success [OF load] b N subs have
    wf: "wf_grid N b" and rc: "r * c = int N"
    and subs_eq: "subs = set_subgrid_coordinates r c"
    and prot: "protected_coordinates s = set_protected_coordinates b"
    by auto
  let ?prot = "protected_coordinates s"
  have pg: "partitions_grid N subs" unfolding subs_eq using pos rc by (rule loaded_partitions)
  from search_returns(1) [OF pg wf, of ?prot 0] obtain found b'
    where pb: "process_board N subs ?prot 0 b = Inr (found, b')" and wf': "wf_grid N b'"
    by blast
  with ok have found: "found" and s': "board s' = Some b'"
    by (auto simp: backtrack_def b N subs)
  from pb found have pbt: "process_board N subs ?prot 0 b = Inr (True, b')" by simp
  have given: "cell_at b' co = cell_at b co \<and> cell_at b co \<noteq> 0"
    if "fst co < N" "snd co < N" "co \<notin> coord_of N ` set (search_indices N ?prot 0)" for co
  proof -
    from coord_of_surj [OF that(1,2)] obtain j where j: "co = coord_of N j" "j < N ^ 2"
      by blast
    with that(3) have "j \<notin> set (search_indices N ?prot 0)" by auto
    with j(2) have "coord_of N j \<in> set ?prot" by (intro skipped_is_protected) simp_all
    with j(1) prot wf have "cell_at b co \<noteq> 0" by (simp add: set_protected_iff)
    moreover have "cell_at b' co = cell_at b co"
      using pg wf pb that by (rule search_frame)
    ultimately show ?thesis by simp
  qed
  have gp: "1 \<le> cell_at b (x, y) \<and> cell_at b (x, y) \<le> int N \<and>
      (\<forall>x' y'. x' < N \<longrightarrow> y' < N \<longrightarrow> (x', y') \<noteq> (x, y) \<longrightarrow> peers N subs (x, y) (x', y') \<longrightarrow>
         cell_at b (x', y') \<noteq> 0 \<longrightarrow> cell_at b (x', y') \<noteq> cell_at b (x, y))"
    if "x < N" "y < N" "cell_at b (x, y) \<noteq> 0" for x y
    using proper that unfolding givens_proper_def by simp
  have "settled N subs b' (x, y)" if xy: "x < N" "y < N" for x y
  proof (cases "(x, y) \<in> coord_of N ` set (search_indices N ?prot 0)")
    case True
    then obtain j where "j \<in> set (search_indices N ?prot 0)" "(x, y) = coord_of N j" by auto
    with search_settles [OF pg wf pbt] show ?thesis by simp
  next
    case False
    from given [of "(x, y)"] xy False
    have g: "cell_at b' (x, y) = cell_at b (x, y)" "cell_at b (x, y) \<noteq> 0" by simp_all
    from gp [OF xy g(2)] have
      rng: "1 \<le> cell_at b (x, y)" "cell_at b (x, y) \<le> int N"
      and others: "\<And>x' y'. x' < N \<Longrightarrow> y' < N \<Longrightarrow> (x', y') \<noteq> (x, y) \<Longrightarrow>
         peers N subs (x, y) (x', y') \<Longrightarrow> cell_at b (x', y') \<noteq> 0 \<Longrightarrow>
         cell_at b (x', y') \<noteq> cell_at b (x, y)"
      by simp_all
    have "cell_at b' co' \<noteq> cell_at b' (x, y)"
      if p: "peers N subs (x, y) co'" and ne: "co' \<noteq> (x, y)" for co'
    proof (cases "co' \<in> coord_of N ` set (search_indices N ?prot 0)")
      case True
      then obtain j where "j \<in> set (search_indices N ?prot 0)" "co' = coord_of N j" by auto
      with search_settles [OF pg wf pbt] have "settled N subs b' co'" by simp
      then have "\<forall>co''. peers N subs co' co'' \<longrightarrow> co'' \<noteq> co' \<longrightarrow>
          cell_at b' co'' \<noteq> cell_at b' co'"
        by (simp add: settled_def)
      moreover have "peers N subs co' (x, y)" by (rule peers_sym [OF p]) (use xy in simp_all)
      ultimately have "cell_at b' (x, y) \<noteq> cell_at b' co'" using ne by blast
      then show ?thesis by simp
    next
      case out: False
      from p have in': "fst co' < N" "snd co' < N" by (simp_all add: peers_def)
      from given [OF in' out] have g': "cell_at b' co' = cell_at b co'" "cell_at b co' \<noteq> 0"
        by simp_all
      from others [of "fst co'" "snd co'"] in' ne p g'(2)
      have "cell_at b co' \<noteq> cell_at b (x, y)" by simp
      with g g' show ?thesis by simp
    qed
    with g rng show ?thesis by (simp add: settled_def)
  qed
  then have "solved N subs b'" using pg wf' by (intro all_settled_solved) simp_all
  with s' show ?thesis by blast
qed

theorem success_gives_solved_board_witness:
  "load_board_csv init_sudoku (Some [''0,1\<newline>'', ''0,0\<newline>'']) 1 2
     = (RTrue, snd (load_board_csv init_sudoku (Some [''0,1\<newline>'', ''0,0\<newline>'']) 1 2)) \<and>
   givens_proper 2 [[(0, 0), (0, 1)], [(1, 0), (1, 1)]] [[0, 1], [0, 0]] \<and>
   backtrack (snd (load_board_csv init_sudoku (Some [''0,1\<newline>'', ''0,0\<newline>'']) 1 2))
     = Inr (True, (snd (load_board_csv init_sudoku (Some [''0,1\<newline>'', ''0,0\<newline>'']) 1 2))
                    \<lparr>board := Some [[2, 1], [1, 2]]\<rparr>) \<and>
   solved 2 [[(0, 0), (0, 1)], [(1, 0), (1, 1)]] [[2, 1], [1, 2]]"
proof -
  let ?s = "snd (load_board_csv init_sudoku (Some [''0,1\<newline>'', ''0,0\<newline>'']) 1 2)"
  let ?subs = "[[(0, 0), (0, 1)], [(1, 0), (1, 1)]] :: coord list list"
  have ok: "load_board_csv init_sudoku (Some [''0,1\<newline>'', ''0,0\<newline>'']) 1 2 = (RTrue, ?s)"
    by code_simp
  have b: "board ?s = Some [[0, 1], [0, 0]]" by code_simp
  have N: "sudoku_N ?s = Some 2" by code_simp
  have subs: "subgrid_coordinates ?s = Some ?subs" by code_simp
  have proper: "givens_proper 2 ?subs [[0, 1], [0, 0]]" by code_simp
  have bt: "backtrack ?s = Inr (True, ?s\<lparr>board := Some [[2, 1], [1, 2]]\<rparr>)" by code_simp
  from success_gives_solved_board [OF ok _ _ b N subs proper bt]
  have "solved 2 ?subs [[2, 1], [1, 2]]" by simp
  with ok proper bt show ?thesis by blast
qed

end
